theory Spec2Isabelle
  imports Complex_Main
begin

section \<open>Data model of the Double Strike generator\<close>

text \<open>
  The piece kinds of the source are the string literals K, Q, R, B, N and P; \<open>pieceLetter\<close>
  gives the letter back where the source prints a kind.
\<close>

datatype SimplePiece = King | Queen | Rook | Bishop | Knight | Pawn

fun pieceLetter :: "SimplePiece \<Rightarrow> char" where
  "pieceLetter King = CHR ''K''"
| "pieceLetter Queen = CHR ''Q''"
| "pieceLetter Rook = CHR ''R''"
| "pieceLetter Bishop = CHR ''B''"
| "pieceLetter Knight = CHR ''N''"
| "pieceLetter Pawn = CHR ''P''"

text \<open>A position is the pair (x, y): x is the file index, y the row index, y = 0 on top.\<close>

type_synonym Position = "int \<times> int"

record Move =
  mv_from :: Position
  mv_to :: Position
  captured :: SimplePiece
  piece :: SimplePiece
  pieceId :: nat
  wasPromotion :: bool

text \<open>
  A board is the array of rows of the source; a cell is \<open>None\<close> for null. Piece identities
  are the decimal strings of a counter in the source and the counter itself here.
\<close>

type_synonym Board = "SimplePiece option list list"

datatype error =
    InvalidPawnPlacement
  | InvalidFinalPiecePlacement
  | GenerationAttemptFailed
  | CouldNotGenerate
  | TypeError
  | OutsideModel

text \<open>
  \<open>TypeError\<close> is what JavaScript raises when a row outside the board is indexed
  (\<open>board[y]\<close> is undefined there). \<open>OutsideModel\<close> marks the two places where the
  embedding stops: a write to a column outside a row, where a JavaScript array would
  grow (rows are lists of fixed length here), and a capture position returned for a
  null mover, for which the record \<open>Move\<close> has no value. Lemma \<open>attempt_inside_model\<close>
  shows that no generation attempt reaches either.
\<close>

record Gen =
  board :: Board
  solution :: "Move list"
  pieceCount :: int
  moveCounts :: "nat \<rightharpoonup> nat"
  nextPieceId :: nat
  pieceLocations :: "(nat \<times> Position) list"
  finalPiece :: SimplePiece
  lastUsedPiece :: "SimplePiece option"
  rngPos :: nat

text \<open>
  \<open>pieceLocations\<close> is a JavaScript Map, which keeps its keys in insertion order;
  the order decides which entry a random index selects, so it is an association list.
  \<open>rngPos\<close> is not a field of the source: it counts the calls of Math.random made so far.
  The i-th call returns the fractional part of the i-th element of an arbitrary sequence
  of rationals, that is, an arbitrary value in [0, 1); arithmetic on it is exact.
\<close>

definition mathRandom :: "(nat \<Rightarrow> rat) \<Rightarrow> Gen \<Rightarrow> rat \<times> Gen" where
  "mathRandom rnd g = (frac (rnd (rngPos g)), g\<lparr>rngPos := rngPos g + 1\<rparr>)"

definition emptyBoard :: Board where
  "emptyBoard = replicate 8 (replicate 8 None)"

datatype slot = NoRow | Undefined | Cell "SimplePiece option"

text \<open>
  Reading \<open>board[y][x]\<close>: \<open>NoRow\<close> when there is no row y (the read raises TypeError),
  \<open>Undefined\<close> when row y has no column x.
\<close>

definition boardGet :: "Board \<Rightarrow> Position \<Rightarrow> slot" where
  "boardGet b pos =
     (let x = fst pos; y = snd pos in
      if 0 \<le> y \<and> y < int (length b) then
        (if 0 \<le> x \<and> x < int (length (b ! nat y)) then Cell (b ! nat y ! nat x) else Undefined)
      else NoRow)"

definition boardSet :: "Board \<Rightarrow> Position \<Rightarrow> SimplePiece option \<Rightarrow> error + Board" where
  "boardSet b pos v =
     (let x = fst pos; y = snd pos in
      if 0 \<le> y \<and> y < int (length b) then
        (if 0 \<le> x \<and> x < int (length (b ! nat y))
         then Inr (b[nat y := (b ! nat y)[nat x := v]])
         else Inl OutsideModel)
      else Inl TypeError)"

section \<open>Random choices\<close>

definition generatePieceId :: "Gen \<Rightarrow> nat \<times> Gen" where
  "generatePieceId g = (nextPieceId g, g\<lparr>nextPieceId := nextPieceId g + 1\<rparr>)"

definition getRandomQuadrant :: "(nat \<Rightarrow> rat) \<Rightarrow> Gen \<Rightarrow> Position \<times> Gen" where
  "getRandomQuadrant rnd g =
     (let (r0, g0) = mathRandom rnd g;
          quadrant = \<lfloor>r0 * 4\<rfloor>;
          (r1, g1) = mathRandom rnd g0;
          x = \<lfloor>r1 * 4\<rfloor> + (quadrant mod 2) * 4;
          (r2, g2) = mathRandom rnd g1;
          y = \<lfloor>r2 * 4\<rfloor> + (quadrant div 2) * 4
      in ((x, y), g2))"

definition randomPosition :: "(nat \<Rightarrow> rat) \<Rightarrow> Gen \<Rightarrow> Position \<times> Gen" where
  "randomPosition rnd g =
     (let (r0, g0) = mathRandom rnd g in
      if r0 < 3 / 10 then getRandomQuadrant rnd g0
      else (let (r1, g1) = mathRandom rnd g0;
                (r2, g2) = mathRandom rnd g1
            in ((\<lfloor>r1 * 8\<rfloor>, \<lfloor>r2 * 8\<rfloor>), g2)))"

definition PIECE_WEIGHTS :: "(SimplePiece \<times> rat) list" where
  "PIECE_WEIGHTS =
     [(King, 100), (Pawn, 3), (Knight, 4), (Bishop, 4), (Rook, 2), (Queen, 1)]"

text \<open>The loop of getRandomPiece over the entries of the weight table.\<close>

fun pickWeighted :: "rat \<Rightarrow> (SimplePiece \<times> rat) list \<Rightarrow> SimplePiece option" where
  "pickWeighted rand [] = None"
| "pickWeighted rand ((pc, weight) # rest) =
     (if rand - weight \<le> 0 then Some pc else pickWeighted (rand - weight) rest)"

definition adjustedWeights :: "bool \<Rightarrow> SimplePiece option \<Rightarrow> (SimplePiece \<times> rat) list" where
  "adjustedWeights excludeKing lastUsed =
     map (\<lambda>(pc, weight). (pc, if Some pc = lastUsed then weight * (1 / 10) else weight))
       (filter (\<lambda>(pc, weight). \<not> excludeKing \<or> pc \<noteq> King) PIECE_WEIGHTS)"

definition getRandomPiece :: "(nat \<Rightarrow> rat) \<Rightarrow> bool \<Rightarrow> Gen \<Rightarrow> SimplePiece \<times> Gen" where
  "getRandomPiece rnd excludeKing g =
     (let weights = adjustedWeights excludeKing (lastUsedPiece g);
          totalWeight = sum_list (map snd weights);
          (r, g1) = mathRandom rnd g
      in case pickWeighted (r * totalWeight) weights of
           Some pc \<Rightarrow> (pc, g1\<lparr>lastUsedPiece := Some pc\<rparr>)
         | None \<Rightarrow> (Pawn, g1))"

text \<open>
  The constructor. The field initialisers run first; the readonly field finalPiece is
  not yet assigned while getRandomPiece runs (which never reads it), so the state handed
  to getRandomPiece carries an arbitrary kind there.
\<close>

definition initialFields :: "SimplePiece \<Rightarrow> nat \<Rightarrow> Gen" where
  "initialFields fp n =
     \<lparr>board = emptyBoard, solution = [], pieceCount = 0, moveCounts = Map.empty,
      nextPieceId = 1, pieceLocations = [], finalPiece = fp, lastUsedPiece = None,
      rngPos = n\<rparr>"

definition constructor :: "(nat \<Rightarrow> rat) \<Rightarrow> SimplePiece option \<Rightarrow> nat \<Rightarrow> Gen" where
  "constructor rnd finalPieceArg n =
     (case finalPieceArg of
        Some fp \<Rightarrow> initialFields fp n
      | None \<Rightarrow> (let (fp, g1) = getRandomPiece rnd False (initialFields Pawn n)
                 in g1\<lparr>finalPiece := fp\<rparr>))"

section \<open>Move legality\<close>

definition stepOf :: "int \<Rightarrow> int" where
  "stepOf d = (if d = 0 then 0 else d div \<bar>d\<bar>)"

text \<open>
  The while loop of hasLineOfSight. Its variables x and y start at from + step and grow
  by step in each round, so in round k (counted from 1) they are from + k * step; the
  loop is written over k. A read outside the rows raises TypeError; a read outside the
  columns of a row gives undefined, which is not null, so the path counts as blocked.
\<close>

definition losMeasure :: "Board \<Rightarrow> Position \<Rightarrow> Position \<Rightarrow> int \<Rightarrow> nat" where
  "losMeasure b from to k =
     (let stepX = stepOf (fst to - fst from);
          stepY = stepOf (snd to - snd from);
          x = fst from + k * stepX;
          y = snd from + k * stepY
      in if 0 < stepY then nat (int (length b) - y)
         else if stepY < 0 then nat (y + 1)
         else if 0 < stepX then nat (int (length (b ! nat y)) - x)
         else nat (x + 1))"

lemma stepOf_sgn: "stepOf d = (if d = 0 then 0 else if 0 < d then 1 else - 1)"
  unfolding stepOf_def by (auto simp: abs_if dvd_div_neg)

function losWhile :: "Board \<Rightarrow> Position \<Rightarrow> Position \<Rightarrow> int \<Rightarrow> error + bool" where
  "losWhile b from to k =
     (let x = fst from + k * stepOf (fst to - fst from);
          y = snd from + k * stepOf (snd to - snd from)
      in if x \<noteq> fst to \<or> y \<noteq> snd to then
           (case boardGet b (x, y) of
              NoRow \<Rightarrow> Inl TypeError
            | Undefined \<Rightarrow> Inr False
            | Cell (Some pc) \<Rightarrow> Inr False
            | Cell None \<Rightarrow> losWhile b from to (k + 1))
         else Inr True)"
  by pat_completeness auto
termination
proof (relation "measure (\<lambda>(b, from, to, k). losMeasure b from to k)", goal_cases)
  case 1
  show ?case by simp
next
  case (2 b "from" to k x y opt)
  then show ?case
    by (auto simp: losMeasure_def boardGet_def stepOf_sgn Let_def algebra_simps split: if_splits)
qed

definition hasLineOfSight :: "Board \<Rightarrow> Position \<Rightarrow> Position \<Rightarrow> error + bool" where
  "hasLineOfSight b from to = losWhile b from to 1"

text \<open>The squares whose cells the loop of hasLineOfSight reads, in the order of the reads.\<close>

function losInspected :: "Board \<Rightarrow> Position \<Rightarrow> Position \<Rightarrow> int \<Rightarrow> Position list" where
  "losInspected b from to k =
     (let x = fst from + k * stepOf (fst to - fst from);
          y = snd from + k * stepOf (snd to - snd from)
      in if x \<noteq> fst to \<or> y \<noteq> snd to then
           (case boardGet b (x, y) of
              NoRow \<Rightarrow> [(x, y)]
            | Undefined \<Rightarrow> [(x, y)]
            | Cell (Some pc) \<Rightarrow> [(x, y)]
            | Cell None \<Rightarrow> (x, y) # losInspected b from to (k + 1))
         else [])"
  by pat_completeness auto
termination
proof (relation "measure (\<lambda>(b, from, to, k). losMeasure b from to k)", goal_cases)
  case 1
  show ?case by simp
next
  case (2 b "from" to k x y opt)
  then show ?case
    by (auto simp: losMeasure_def boardGet_def stepOf_sgn Let_def algebra_simps split: if_splits)
qed

definition isValidMove ::
  "Board \<Rightarrow> Position \<Rightarrow> Position \<Rightarrow> SimplePiece option \<Rightarrow> bool \<Rightarrow> error + bool" where
  "isValidMove b from to pc isBackwardGeneration =
     (let dx = \<bar>fst from - fst to\<bar>;
          dy = snd to - snd from
      in case pc of
           Some Pawn \<Rightarrow>
             (if isBackwardGeneration then Inr (dx = 1 \<and> dy = 1) else Inr (dx = 1 \<and> dy = - 1))
         | Some Knight \<Rightarrow> Inr ((dx = 2 \<and> \<bar>dy\<bar> = 1) \<or> (dx = 1 \<and> \<bar>dy\<bar> = 2))
         | Some Bishop \<Rightarrow> (if dx = \<bar>dy\<bar> then hasLineOfSight b from to else Inr False)
         | Some Rook \<Rightarrow> (if dx = 0 \<or> \<bar>dy\<bar> = 0 then hasLineOfSight b from to else Inr False)
         | Some Queen \<Rightarrow>
             (if dx = \<bar>dy\<bar> \<or> dx = 0 \<or> \<bar>dy\<bar> = 0 then hasLineOfSight b from to else Inr False)
         | Some King \<Rightarrow> Inr (dx \<le> 1 \<and> \<bar>dy\<bar> \<le> 1)
         | None \<Rightarrow> Inr False)"

definition isSquareEmpty :: "Board \<Rightarrow> Position \<Rightarrow> error + bool" where
  "isSquareEmpty b pos =
     (case boardGet b pos of
        NoRow \<Rightarrow> Inl TypeError
      | Undefined \<Rightarrow> Inr False
      | Cell c \<Rightarrow> Inr (c = None))"

section \<open>Notation\<close>

text \<open>
  Number.toString on the integers. String.fromCharCode is \<open>char_of\<close>, which agrees
  with it on the code units below 256.
\<close>

fun natToString :: "nat \<Rightarrow> string" where
  "natToString n =
     (if n < 10 then [char_of (48 + n)]
      else natToString (n div 10) @ [char_of (48 + n mod 10)])"





section \<open>Board encoding and its decoder\<close>

definition rowString :: "SimplePiece option list \<Rightarrow> string" where
  "rowString row = concat (map (\<lambda>cell. case cell of Some pc \<Rightarrow> [pieceLetter pc] | None \<Rightarrow> ''1'') row)"

text \<open>\<open>replace(/1+/g, match => match.length.toString())\<close>: every maximal run of 1s, left to right.\<close>

function replaceOnes :: "string \<Rightarrow> string" where
  "replaceOnes [] = []"
| "replaceOnes (c # cs) =
     (if c = CHR ''1''
      then natToString (1 + length (takeWhile (\<lambda>d. d = CHR ''1'') cs))
             @ replaceOnes (dropWhile (\<lambda>d. d = CHR ''1'') cs)
      else c # replaceOnes cs)"
  by pat_completeness auto
termination
  by (relation "measure length") (auto simp: less_Suc_eq_le length_dropWhile_le)

fun join :: "string \<Rightarrow> string list \<Rightarrow> string" where
  "join sep [] = []"
| "join sep [s] = s"
| "join sep (s # t # ss) = s @ sep @ join sep (t # ss)"

definition getFEN :: "Gen \<Rightarrow> string" where
  "getFEN g = join ''/'' (map (\<lambda>row. replaceOnes (rowString row)) (board g))"

text \<open>String.split with a separator of one character; the result is never empty.\<close>

fun splitStr :: "char \<Rightarrow> string \<Rightarrow> string list" where
  "splitStr sep [] = [[]]"
| "splitStr sep (c # cs) =
     (if c = sep then [] # splitStr sep cs
      else (case splitStr sep cs of
              [] \<Rightarrow> [[c]]
            | s # ss \<Rightarrow> (c # s) # ss))"

text \<open>parseInt of a string of one character: a digit gives its value, all else NaN.\<close>

definition parseInt :: "char \<Rightarrow> nat option" where
  "parseInt c =
     (let code = (of_char c :: nat)
      in if 48 \<le> code \<and> code \<le> 57 then Some (code - 48) else None)"

record TrackedPiece =
  tp_id :: string
  tp_type :: char

text \<open>The loop of fenToBoard over the characters of one row; pieceCounter is threaded.\<close>

fun decodeRow :: "nat \<Rightarrow> string \<Rightarrow> TrackedPiece option list \<times> nat" where
  "decodeRow pieceCounter [] = ([], pieceCounter)"
| "decodeRow pieceCounter (c # cs) =
     (case parseInt c of
        None \<Rightarrow>
          (let (cells, n) = decodeRow (pieceCounter + 1) cs
           in (Some \<lparr>tp_id = ''piece_'' @ natToString pieceCounter, tp_type = c\<rparr> # cells, n))
      | Some k \<Rightarrow>
          (let (cells, n) = decodeRow pieceCounter cs
           in (replicate k None @ cells, n)))"

fun decodeRows :: "nat \<Rightarrow> string list \<Rightarrow> TrackedPiece option list list" where
  "decodeRows pieceCounter [] = []"
| "decodeRows pieceCounter (row # rows) =
     (let (cells, n) = decodeRow pieceCounter row in cells # decodeRows n rows)"

definition fenToBoard :: "string \<Rightarrow> TrackedPiece option list list" where
  "fenToBoard fen = decodeRows 0 (splitStr CHR ''/'' (splitStr CHR '' '' fen ! 0))"

section \<open>Placing, removing and the reverse search\<close>

definition placePiece :: "SimplePiece \<Rightarrow> Position \<Rightarrow> Gen \<Rightarrow> (error + nat) \<times> Gen" where
  "placePiece pc position g =
     (if pc = Pawn \<and> snd position = 0 then (Inl InvalidPawnPlacement, g)
      else (let (newId, g1) = generatePieceId g in
            case boardSet (board g1) position (Some pc) of
              Inl e \<Rightarrow> (Inl e, g1)
            | Inr b' \<Rightarrow>
                (Inr newId,
                 g1\<lparr>board := b', pieceCount := pieceCount g1 + 1,
                    moveCounts := (moveCounts g1)(newId \<mapsto> 0)\<rparr>)))"

definition removePiece :: "Position \<Rightarrow> Gen \<Rightarrow> (error + unit) \<times> Gen" where
  "removePiece position g =
     (case boardSet (board g) position None of
        Inl e \<Rightarrow> (Inl e, g)
      | Inr b' \<Rightarrow> (Inr (), g\<lparr>board := b', pieceCount := pieceCount g - 1\<rparr>))"

text \<open>The squares in the order of the two nested for loops: y outside, x inside.\<close>

definition boardSquares :: "Position list" where
  "boardSquares = concat (map (\<lambda>y. map (\<lambda>x. (x, y)) [0..7]) [0..7])"

text \<open>
  The body of the nested loops of findValidCapturePosition, over the squares still to
  visit, with the two candidate lists collected so far.
\<close>

fun scanSquares ::
  "Board \<Rightarrow> Position \<Rightarrow> SimplePiece option \<Rightarrow> Position list \<Rightarrow> Position list \<Rightarrow> Position list
     \<Rightarrow> error + Position list \<times> Position list" where
  "scanSquares b from pc [] candidates promotionCandidates =
     Inr (candidates, promotionCandidates)"
| "scanSquares b from pc (to # rest) candidates promotionCandidates =
     (case boardGet b to of
        NoRow \<Rightarrow> Inl TypeError
      | Undefined \<Rightarrow> scanSquares b from pc rest candidates promotionCandidates
      | Cell c \<Rightarrow>
          if c = Some King then scanSquares b from pc rest candidates promotionCandidates
          else if c = None then
            (case isValidMove b from to pc True of
               Inl e \<Rightarrow> Inl e
             | Inr valid \<Rightarrow>
                 if valid then
                   (if pc = Some Pawn \<and> snd to = 0
                    then scanSquares b from pc rest candidates (promotionCandidates @ [to])
                    else scanSquares b from pc rest (candidates @ [to]) promotionCandidates)
                 else scanSquares b from pc rest candidates promotionCandidates)
          else scanSquares b from pc rest candidates promotionCandidates)"

text \<open>\<open>xs[Math.floor(Math.random() * xs.length)]\<close>.\<close>

definition randomElement :: "(nat \<Rightarrow> rat) \<Rightarrow> 'a list \<Rightarrow> Gen \<Rightarrow> 'a \<times> Gen" where
  "randomElement rnd xs g =
     (let (r, g1) = mathRandom rnd g in (xs ! nat \<lfloor>r * of_nat (length xs)\<rfloor>, g1))"

definition promotionPieces :: "SimplePiece list" where
  "promotionPieces = [Queen, Rook, Bishop, Knight]"

definition findValidCapturePosition ::
  "(nat \<Rightarrow> rat) \<Rightarrow> Position \<Rightarrow> SimplePiece option \<Rightarrow> Gen
     \<Rightarrow> (error + (Position \<times> SimplePiece option) option) \<times> Gen" where
  "findValidCapturePosition rnd from pc g =
     (case scanSquares (board g) from pc boardSquares [] [] of
        Inl e \<Rightarrow> (Inl e, g)
      | Inr (candidates, promotionCandidates) \<Rightarrow>
          if pc = Some Pawn \<and> 0 < length promotionCandidates then
            (let (position, g1) = randomElement rnd promotionCandidates g;
                 (promotedPiece, g2) = randomElement rnd promotionPieces g1
             in (Inr (Some (position, Some promotedPiece)), g2))
          else if length candidates = 0 \<and> length promotionCandidates = 0 then (Inr None, g)
          else
            (let allMoves = candidates @ promotionCandidates;
                 (position, g1) = randomElement rnd allMoves g
             in if pc = Some Pawn \<and> snd position = 0 then
                  (let (promotedPiece, g2) = randomElement rnd promotionPieces g1
                   in (Inr (Some (position, Some promotedPiece)), g2))
                else (Inr (Some (position, None)), g1)))"

definition moveCountOf :: "(nat \<rightharpoonup> nat) \<Rightarrow> nat \<Rightarrow> nat" where
  "moveCountOf counts pid = (case counts pid of None \<Rightarrow> 0 | Some c \<Rightarrow> c)"

definition hasExceededMoveLimit :: "nat \<Rightarrow> Gen \<Rightarrow> bool" where
  "hasExceededMoveLimit pid g = (2 \<le> moveCountOf (moveCounts g) pid)"

definition incrementMoveCount :: "nat \<Rightarrow> Gen \<Rightarrow> Gen" where
  "incrementMoveCount pid g =
     g\<lparr>moveCounts := (moveCounts g)(pid \<mapsto> moveCountOf (moveCounts g) pid + 1)\<rparr>"

section \<open>The forward validator\<close>

definition executeMove :: "Board \<Rightarrow> Move \<Rightarrow> error + Board" where
  "executeMove boardCopy move =
     (case boardSet boardCopy (mv_to move) (Some (piece move)) of
        Inl e \<Rightarrow> Inl e
      | Inr b1 \<Rightarrow> boardSet b1 (mv_from move) None)"

text \<open>
  The loop of validateSolution over the moves. Its first argument is this.board, which
  isValidMove reads for the line of sight; the second is the copy the moves are played
  on. The result \<open>Inr None\<close> is the \<open>return false\<close> inside the loop, \<open>Inr (Some boardCopy)\<close> the
  copy after the last move.
\<close>

fun validateMoves ::
  "Board \<Rightarrow> Board \<Rightarrow> (nat \<rightharpoonup> nat) \<Rightarrow> Move list \<Rightarrow> error + Board option" where
  "validateMoves b boardCopy counts [] = Inr (Some boardCopy)"
| "validateMoves b boardCopy counts (move # rest) =
     (let fromPiece = boardGet boardCopy (mv_from move) in
      if fromPiece = NoRow then Inl TypeError
      else (let toPiece = boardGet boardCopy (mv_to move) in
        if toPiece = NoRow then Inl TypeError
        else if fromPiece \<noteq> Cell (Some (piece move)) \<or> toPiece \<noteq> Cell (Some (captured move))
        then Inr None
        else (case isValidMove b (mv_from move) (mv_to move) (Some (piece move)) False of
                Inl e \<Rightarrow> Inl e
              | Inr valid \<Rightarrow>
                  if \<not> valid then Inr None
                  else (let moveCount = moveCountOf counts (pieceId move) in
                    if 2 \<le> moveCount then Inr None
                    else (case executeMove boardCopy move of
                            Inl e \<Rightarrow> Inl e
                          | Inr b2 \<Rightarrow>
                              validateMoves b b2 (counts(pieceId move \<mapsto> moveCount + 1)) rest)))))"

definition remainingPieces :: "Board \<Rightarrow> SimplePiece option list" where
  "remainingPieces boardCopy = filter (\<lambda>cell. cell \<noteq> None) (concat boardCopy)"

definition hasKing :: "Board \<Rightarrow> bool" where
  "hasKing b = list_ex (\<lambda>cell. cell = Some King) (concat b)"

definition validateSolution :: "Gen \<Rightarrow> error + bool" where
  "validateSolution g =
     (case validateMoves (board g) (board g) Map.empty (solution g) of
        Inl e \<Rightarrow> Inl e
      | Inr None \<Rightarrow> Inr False
      | Inr (Some boardCopy) \<Rightarrow>
          if length (remainingPieces boardCopy) \<noteq> 1 then Inr False
          else if hasKing (board g) \<and> remainingPieces boardCopy ! 0 \<noteq> Some King then Inr False
          else Inr True)"

section \<open>generate\<close>

text \<open>Map.set: the value of a present key is replaced in place, a new key goes last.\<close>

fun mapSet :: "nat \<Rightarrow> Position \<Rightarrow> (nat \<times> Position) list \<Rightarrow> (nat \<times> Position) list" where
  "mapSet k v [] = [(k, v)]"
| "mapSet k v ((k', v') # rest) =
     (if k' = k then (k, v) # rest else (k', v') # mapSet k v rest)"

definition setLocation :: "nat \<Rightarrow> Position \<Rightarrow> Gen \<Rightarrow> Gen" where
  "setLocation pid pos g = g\<lparr>pieceLocations := mapSet pid pos (pieceLocations g)\<rparr>"

definition movablePieces :: "Gen \<Rightarrow> (nat \<times> Position) list" where
  "movablePieces g = filter (\<lambda>(pid, pos). \<not> hasExceededMoveLimit pid g) (pieceLocations g)"

text \<open>The loop that tries up to 20 random squares for a brand-new piece.\<close>

function placementLoop :: "(nat \<Rightarrow> rat) \<Rightarrow> nat \<Rightarrow> Gen \<Rightarrow> (error + unit) \<times> Gen" where
  "placementLoop rnd placementAttempts g =
     (if placementAttempts < 20 then
        (let (newPos, g1) = randomPosition rnd g in
         case isSquareEmpty (board g1) newPos of
           Inl e \<Rightarrow> (Inl e, g1)
         | Inr isEmpty \<Rightarrow>
             if isEmpty then
               (let (newPiece, g2) = getRandomPiece rnd True g1 in
                case placePiece newPiece newPos g2 of
                  (Inl e, g3) \<Rightarrow> (Inl e, g3)
                | (Inr newPieceId, g3) \<Rightarrow> (Inr (), setLocation newPieceId newPos g3))
             else placementLoop rnd (placementAttempts + 1) g1)
      else (Inr (), g))"
  by pat_completeness auto
termination
  by (relation "measure (\<lambda>(rnd, placementAttempts, g). 20 - placementAttempts)") auto

text \<open>
  The un-capture of one mover, after findValidCapturePosition has returned a position:
  the statements from removePiece to solution.push.
\<close>

definition relocate ::
  "(nat \<Rightarrow> rat) \<Rightarrow> nat \<Rightarrow> Position \<Rightarrow> SimplePiece \<Rightarrow> Position \<Rightarrow> SimplePiece option \<Rightarrow> Gen
     \<Rightarrow> (error + unit) \<times> Gen" where
  "relocate rnd selectedPieceId currentPos currentPiece position promotedPiece g =
     (case removePiece currentPos g of
        (Inl e, g1) \<Rightarrow> (Inl e, g1)
      | (Inr u, g1) \<Rightarrow>
          (let movingPiece = (case promotedPiece of Some pp \<Rightarrow> pp | None \<Rightarrow> currentPiece) in
           case placePiece movingPiece position g1 of
             (Inl e, g2) \<Rightarrow> (Inl e, g2)
           | (Inr unusedId, g2) \<Rightarrow>
               (let g3 = incrementMoveCount selectedPieceId (setLocation selectedPieceId position g2);
                    (newPiece, g4) = getRandomPiece rnd True g3
                in case placePiece newPiece currentPos g4 of
                     (Inl e, g5) \<Rightarrow> (Inl e, g5)
                   | (Inr newPieceId, g5) \<Rightarrow>
                       (let g6 = setLocation newPieceId currentPos g5
                        in (Inr (),
                            g6\<lparr>solution := solution g6 @
                                 [\<lparr>mv_from = position, mv_to = currentPos, captured = newPiece,
                                   piece = movingPiece, pieceId = selectedPieceId,
                                   wasPromotion = (promotedPiece \<noteq> None)\<rparr>]\<rparr>)))))"

text \<open>
  One round of the inner while loop, after the increment of localAttempts. The value
  currentPiece is read from the board without a check (the source asserts it with \<open>!\<close>),
  so it can be null or undefined at run time; both take the default branch of
  isValidMove.
\<close>

definition localStep :: "(nat \<Rightarrow> rat) \<Rightarrow> Gen \<Rightarrow> (error + unit) \<times> Gen" where
  "localStep rnd g =
     (let movable = movablePieces g in
      if length movable = 0 then placementLoop rnd 0 g
      else
        (let ((selectedPieceId, currentPos), g1) = randomElement rnd movable g in
         case boardGet (board g1) currentPos of
           NoRow \<Rightarrow> (Inl TypeError, g1)
         | sl \<Rightarrow>
             (let currentPiece = (case sl of Cell c \<Rightarrow> c | _ \<Rightarrow> None) in
              case findValidCapturePosition rnd currentPos currentPiece g1 of
                (Inl e, g2) \<Rightarrow> (Inl e, g2)
              | (Inr None, g2) \<Rightarrow> (Inr (), g2)
              | (Inr (Some (position, promotedPiece)), g2) \<Rightarrow>
                  (case currentPiece of
                     None \<Rightarrow> (Inl OutsideModel, g2)
                   | Some cp \<Rightarrow>
                       relocate rnd selectedPieceId currentPos cp position promotedPiece g2))))"

function localLoop :: "(nat \<Rightarrow> rat) \<Rightarrow> int \<Rightarrow> nat \<Rightarrow> Gen \<Rightarrow> (error + unit) \<times> Gen" where
  "localLoop rnd numPieces localAttempts g =
     (if pieceCount g < numPieces \<and> localAttempts < 100 then
        (case localStep rnd g of
           (Inl e, g1) \<Rightarrow> (Inl e, g1)
         | (Inr u, g1) \<Rightarrow> localLoop rnd numPieces (localAttempts + 1) g1)
      else (Inr (), g))"
  by pat_completeness auto
termination
  by (relation "measure (\<lambda>(rnd, numPieces, localAttempts, g). 100 - localAttempts)") auto

definition resetForAttempt :: "Gen \<Rightarrow> Gen" where
  "resetForAttempt g =
     g\<lparr>board := emptyBoard, solution := [], pieceCount := 0, moveCounts := Map.empty,
       nextPieceId := 1, lastUsedPiece := None\<rparr>"

text \<open>The try block up to the end of the inner while loop.\<close>

definition buildAttempt :: "(nat \<Rightarrow> rat) \<Rightarrow> int \<Rightarrow> Gen \<Rightarrow> (error + unit) \<times> Gen" where
  "buildAttempt rnd numPieces g =
     (let (finalPosition, g1) = randomPosition rnd g in
      if finalPiece g1 = Pawn \<and> (snd finalPosition = 0 \<or> snd finalPosition = 7)
      then (Inl InvalidFinalPiecePlacement, g1)
      else (case placePiece (finalPiece g1) finalPosition g1 of
              (Inl e, g2) \<Rightarrow> (Inl e, g2)
            | (Inr finalPieceId, g2) \<Rightarrow>
                localLoop rnd numPieces 0 (setLocation finalPieceId finalPosition g2)))"

text \<open>The rest of the try block: the check for success, and the throw when it fails.\<close>

definition finishAttempt :: "int \<Rightarrow> Gen \<Rightarrow> (error + unit) \<times> Gen" where
  "finishAttempt numPieces g =
     (if pieceCount g = numPieces then
        (let g1 = g\<lparr>solution := rev (solution g)\<rparr> in
         case validateSolution g1 of
           Inl e \<Rightarrow> (Inl e, g1)
         | Inr valid \<Rightarrow> if valid then (Inr (), g1) else (Inl GenerationAttemptFailed, g1))
      else (Inl GenerationAttemptFailed, g))"

definition attempt :: "(nat \<Rightarrow> rat) \<Rightarrow> int \<Rightarrow> Gen \<Rightarrow> (error + unit) \<times> Gen" where
  "attempt rnd numPieces g =
     (case buildAttempt rnd numPieces g of
        (Inl e, g1) \<Rightarrow> (Inl e, g1)
      | (Inr u, g1) \<Rightarrow> finishAttempt numPieces g1)"

definition maxGlobalAttempts :: nat where
  "maxGlobalAttempts = 10000"

text \<open>
  The outer while loop. Every error thrown inside the try block is caught and leads to
  the next round; the only throw outside it is the one after the loop.
\<close>

function generateLoop :: "(nat \<Rightarrow> rat) \<Rightarrow> int \<Rightarrow> nat \<Rightarrow> Gen \<Rightarrow> (error + unit) \<times> Gen" where
  "generateLoop rnd numPieces globalAttempts g =
     (if globalAttempts < maxGlobalAttempts then
        (case attempt rnd numPieces (resetForAttempt g) of
           (Inr u, g1) \<Rightarrow> (Inr (), g1)
         | (Inl e, g1) \<Rightarrow> generateLoop rnd numPieces (globalAttempts + 1) g1)
      else (Inl CouldNotGenerate, g))"
  by pat_completeness auto
termination
  by (relation "measure (\<lambda>(rnd, numPieces, globalAttempts, g). maxGlobalAttempts - globalAttempts)")
     auto

definition generate :: "(nat \<Rightarrow> rat) \<Rightarrow> int \<Rightarrow> Gen \<Rightarrow> (error + unit) \<times> Gen" where
  "generate rnd numPieces g = generateLoop rnd numPieces 0 g"

section \<open>Observations used in the statements\<close>


text \<open>
  The run-length encoding of a rank in the words of the specification: a piece gives
  its letter, a maximal run of empty squares gives its length in decimal.
\<close>

function rankRunLength :: "SimplePiece option list \<Rightarrow> string" where
  "rankRunLength [] = []"
| "rankRunLength (Some pc # rest) = pieceLetter pc # rankRunLength rest"
| "rankRunLength (None # rest) =
     natToString (1 + length (takeWhile (\<lambda>cell. cell = None) rest))
       @ rankRunLength (dropWhile (\<lambda>cell. cell = None) rest)"
  by pat_completeness auto
termination
  by (relation "measure length") (auto simp: less_Suc_eq_le length_dropWhile_le)

text \<open>The pieces of a row in file order, and the squares a rank string accounts for.\<close>

fun rowPieces :: "SimplePiece option list \<Rightarrow> SimplePiece list" where
  "rowPieces [] = []"
| "rowPieces (Some pc # row) = pc # rowPieces row"
| "rowPieces (None # row) = rowPieces row"

definition rankWidth :: "string \<Rightarrow> nat" where
  "rankWidth s = sum_list (map (\<lambda>c. case parseInt c of None \<Rightarrow> 1 | Some k \<Rightarrow> k) s)"

text \<open>The arrangement of kinds of a board, and of a decoded board.\<close>

definition kindsOf :: "Board \<Rightarrow> char option list list" where
  "kindsOf b = map (map (map_option pieceLetter)) b"

definition decodedKinds :: "TrackedPiece option list list \<Rightarrow> char option list list" where
  "decodedKinds d = map (map (map_option tp_type)) d"

definition is8x8 :: "Board \<Rightarrow> bool" where
  "is8x8 b = (length b = 8 \<and> list_all (\<lambda>row. length row = 8) b)"

definition fenRanks :: "Gen \<Rightarrow> string list" where
  "fenRanks g = splitStr CHR ''/'' (getFEN g)"


text \<open>A board with a queen on b8, and king, pawn and rook on a7, b7 and h7.\<close>

definition sampleBoard :: Board where
  "sampleBoard =
     [None, Some Queen, None, None, None, None, None, None] #
     [Some King, Some Pawn, None, None, None, None, None, Some Rook] #
     replicate 6 (replicate 8 None)"

section \<open>Predicates and observations used in the statements\<close>

text \<open>
  A position inside the rows and columns a board has; the number of cells of a board
  that satisfy a predicate; a position of the 8x8 board.
\<close>

definition inRange :: "Board \<Rightarrow> Position \<Rightarrow> bool" where
  "inRange b pos =
     (0 \<le> snd pos \<and> snd pos < int (length b) \<and>
      0 \<le> fst pos \<and> fst pos < int (length (b ! nat (snd pos))))"

definition countCells :: "(SimplePiece option \<Rightarrow> bool) \<Rightarrow> Board \<Rightarrow> nat" where
  "countCells p b = length (filter p (concat b))"

definition onBoard :: "Position \<Rightarrow> bool" where
  "onBoard pos = (0 \<le> fst pos \<and> fst pos < 8 \<and> 0 \<le> snd pos \<and> snd pos < 8)"

text \<open>
  The number of pieces on a board (its non-null cells, as validateSolution counts
  them) and the number of its Kings.
\<close>

definition countPieces :: "Board \<Rightarrow> nat" where
  "countPieces b = length (remainingPieces b)"

definition kingCount :: "Board \<Rightarrow> nat" where
  "kingCount b = length (filter (\<lambda>cell. cell = Some King) (concat b))"

text \<open>
  Two states that agree on every field of the source but lastUsedPiece; the draws of
  Math.random change nothing else.
\<close>

definition sameCore :: "Gen \<Rightarrow> Gen \<Rightarrow> bool" where
  "sameCore g g' =
     (board g' = board g \<and> solution g' = solution g \<and> pieceCount g' = pieceCount g \<and>
      moveCounts g' = moveCounts g \<and> nextPieceId g' = nextPieceId g \<and>
      pieceLocations g' = pieceLocations g \<and> finalPiece g' = finalPiece g)"

text \<open>
  What holds of the recorded moves, of the board and of the ledger while generate runs:
  no recorded move captures a King or stays on its square, the board is 8x8, pieceCount
  is the number of pieces on it, there is at most one King, and no count of the ledger
  exceeds 2.
\<close>

definition solutionOk :: "Move list \<Rightarrow> bool" where
  "solutionOk ms =
     list_all (\<lambda>m. captured m \<noteq> King \<and> mv_from m \<noteq> mv_to m \<and>
                 onBoard (mv_from m) \<and> onBoard (mv_to m)) ms"

definition genInv :: "Gen \<Rightarrow> bool" where
  "genInv g =
     (is8x8 (board g) \<and>
      pieceCount g = int (countCells (\<lambda>c. c \<noteq> None) (board g)) \<and>
      countCells (\<lambda>c. c = Some King) (board g) \<le> 1 \<and>
      solutionOk (solution g))"

definition ledgerOk :: "Gen \<Rightarrow> bool" where
  "ledgerOk g = (\<forall>pid. moveCountOf (moveCounts g) pid \<le> 2)"

text \<open>
  The boards that the replay of a move list passes through, one per move, as
  validateSolution executes the moves on its copy; and whether some move of the replay
  finds a King on its destination square.
\<close>

fun replayBoards :: "Board \<Rightarrow> Move list \<Rightarrow> Board list" where
  "replayBoards boardCopy [] = []"
| "replayBoards boardCopy (move # rest) =
     (case executeMove boardCopy move of
        Inl e \<Rightarrow> []
      | Inr b2 \<Rightarrow> b2 # replayBoards b2 rest)"

fun capturesKing :: "Board \<Rightarrow> Move list \<Rightarrow> bool" where
  "capturesKing boardCopy [] = False"
| "capturesKing boardCopy (move # rest) =
     (boardGet boardCopy (mv_to move) = Cell (Some King) \<or>
      (case executeMove boardCopy move of
         Inl e \<Rightarrow> False
       | Inr b2 \<Rightarrow> capturesKing b2 rest))"

text \<open>The state after the first k rounds of the outer loop, when all of them fail.\<close>

fun failedAttempts :: "(nat \<Rightarrow> rat) \<Rightarrow> int \<Rightarrow> nat \<Rightarrow> Gen \<Rightarrow> Gen" where
  "failedAttempts rnd numPieces 0 g = g"
| "failedAttempts rnd numPieces (Suc k) g =
     failedAttempts rnd numPieces k (snd (attempt rnd numPieces (resetForAttempt g)))"

text \<open>
  Two squares on one file, one rank or one diagonal; and the precondition under which
  hasLineOfSight is meant to run: two distinct squares of the board that are aligned.
\<close>

definition aligned :: "Position \<Rightarrow> Position \<Rightarrow> bool" where
  "aligned from to =
     (fst from = fst to \<or> snd from = snd to \<or> \<bar>fst to - fst from\<bar> = \<bar>snd to - snd from\<bar>)"

definition losPre :: "Position \<Rightarrow> Position \<Rightarrow> bool" where
  "losPre from to = (onBoard from \<and> onBoard to \<and> from \<noteq> to \<and> aligned from to)"

text \<open>
  Whether isValidMove reaches its call of hasLineOfSight: the left operand of the
  \<open>&&\<close> in the bishop, rook and queen branches.
\<close>

definition invokesLineOfSight :: "Position \<Rightarrow> Position \<Rightarrow> SimplePiece option \<Rightarrow> bool" where
  "invokesLineOfSight from to pc =
     (let dx = \<bar>fst from - fst to\<bar>;
          dy = snd to - snd from
      in case pc of
           Some Bishop \<Rightarrow> dx = \<bar>dy\<bar>
         | Some Rook \<Rightarrow> dx = 0 \<or> \<bar>dy\<bar> = 0
         | Some Queen \<Rightarrow> dx = \<bar>dy\<bar> \<or> dx = 0 \<or> \<bar>dy\<bar> = 0
         | _ \<Rightarrow> False)"

text \<open>
  The calls of hasLineOfSight, as pairs (from, to) in the order of the calls, that one
  call of isValidMove makes, that the scan of findValidCapturePosition makes over the
  squares still to visit, and that the loop of validateSolution makes over the moves
  still to replay.
\<close>

definition losCalls :: "Position \<Rightarrow> Position \<Rightarrow> SimplePiece option \<Rightarrow> (Position \<times> Position) list" where
  "losCalls from to pc = (if invokesLineOfSight from to pc then [(from, to)] else [])"

fun scanLosCalls ::
  "Board \<Rightarrow> Position \<Rightarrow> SimplePiece option \<Rightarrow> Position list \<Rightarrow> (Position \<times> Position) list" where
  "scanLosCalls b from pc [] = []"
| "scanLosCalls b from pc (to # rest) =
     (case boardGet b to of
        NoRow \<Rightarrow> []
      | Undefined \<Rightarrow> scanLosCalls b from pc rest
      | Cell c \<Rightarrow>
          if c = Some King then scanLosCalls b from pc rest
          else if c = None then
            losCalls from to pc @
            (case isValidMove b from to pc True of
               Inl e \<Rightarrow> []
             | Inr valid \<Rightarrow> scanLosCalls b from pc rest)
          else scanLosCalls b from pc rest)"

fun validateLosCalls ::
  "Board \<Rightarrow> Board \<Rightarrow> (nat \<rightharpoonup> nat) \<Rightarrow> Move list \<Rightarrow> (Position \<times> Position) list" where
  "validateLosCalls b boardCopy counts [] = []"
| "validateLosCalls b boardCopy counts (move # rest) =
     (if boardGet boardCopy (mv_from move) \<noteq> Cell (Some (piece move)) \<or>
         boardGet boardCopy (mv_to move) \<noteq> Cell (Some (captured move))
      then []
      else losCalls (mv_from move) (mv_to move) (Some (piece move)) @
        (case isValidMove b (mv_from move) (mv_to move) (Some (piece move)) False of
           Inl e \<Rightarrow> []
         | Inr valid \<Rightarrow>
             if \<not> valid \<or> 2 \<le> moveCountOf counts (pieceId move) then []
             else (case executeMove boardCopy move of
                     Inl e \<Rightarrow> []
                   | Inr b2 \<Rightarrow>
                       validateLosCalls b b2
                         (counts(pieceId move \<mapsto> moveCountOf counts (pieceId move) + 1)) rest)))"

text \<open>
  The squares strictly between two aligned squares, from the first towards the second.
\<close>

definition squaresBetween :: "Position \<Rightarrow> Position \<Rightarrow> Position list" where
  "squaresBetween from to =
     map (\<lambda>k. (fst from + k * stepOf (fst to - fst from), snd from + k * stepOf (snd to - snd from)))
       [1..max \<bar>fst to - fst from\<bar> \<bar>snd to - snd from\<bar> - 1]"


text \<open>
  The calls of hasLineOfSight in one round of the inner loop of generate (none when the
  round places a new piece instead of moving one), and those of validateSolution.
\<close>

definition searchLosCalls :: "(nat \<Rightarrow> rat) \<Rightarrow> Gen \<Rightarrow> (Position \<times> Position) list" where
  "searchLosCalls rnd g =
     (let movable = movablePieces g in
      if length movable = 0 then []
      else
        (let ((selectedPieceId, currentPos), g1) = randomElement rnd movable g in
         case boardGet (board g1) currentPos of
           NoRow \<Rightarrow> []
         | sl \<Rightarrow> scanLosCalls (board g1) currentPos (case sl of Cell c \<Rightarrow> c | _ \<Rightarrow> None)
                  boardSquares))"

definition validatorLosCalls :: "Gen \<Rightarrow> (Position \<times> Position) list" where
  "validatorLosCalls g = validateLosCalls (board g) (board g) Map.empty (solution g)"

text \<open>
  The state in which the inner loop of an attempt, started from g0, runs its round
  number k (counting from 0), if it gets that far.
\<close>

fun searchStateAt :: "(nat \<Rightarrow> rat) \<Rightarrow> int \<Rightarrow> Gen \<Rightarrow> nat \<Rightarrow> Gen option" where
  "searchStateAt rnd numPieces g0 0 =
     (let (finalPosition, g1) = randomPosition rnd (resetForAttempt g0) in
      if finalPiece g1 = Pawn \<and> (snd finalPosition = 0 \<or> snd finalPosition = 7) then None
      else (case placePiece (finalPiece g1) finalPosition g1 of
              (Inl e, g2) \<Rightarrow> None
            | (Inr finalPieceId, g2) \<Rightarrow>
                if pieceCount g2 < numPieces
                then Some (setLocation finalPieceId finalPosition g2) else None))"
| "searchStateAt rnd numPieces g0 (Suc k) =
     (case searchStateAt rnd numPieces g0 k of
        None \<Rightarrow> None
      | Some g \<Rightarrow>
          (case localStep rnd g of
             (Inl e, g1) \<Rightarrow> None
           | (Inr u, g1) \<Rightarrow>
               if pieceCount g1 < numPieces \<and> Suc k < 100 then Some g1 else None))"

text \<open>A source of random numbers that yields the listed draws and then d forever.\<close>

definition drawsThen :: "rat list \<Rightarrow> rat \<Rightarrow> nat \<Rightarrow> rat" where
  "drawsThen xs d i = (if i < length xs then xs ! i else d)"

text \<open>
  Draws on which the first attempt for three pieces, with a Queen as final piece, fails
  after two moves; and the generator as that attempt leaves it.
\<close>

definition staleDraws :: "nat \<Rightarrow> rat" where
  "staleDraws = drawsThen [1 / 2, 1 / 2, 0, 0, 0, 1 / 2, 1 / 2, 0, 0] (1 / 2)"

definition afterFirstAttempt :: Gen where
  "afterFirstAttempt =
     snd (attempt staleDraws 3 (resetForAttempt (constructor staleDraws (Some Queen) 0)))"

section \<open>Proof setup\<close>

declare losWhile.simps [simp del] losInspected.simps [simp del] placementLoop.simps [simp del]
  localLoop.simps [simp del] generateLoop.simps [simp del]


section \<open>The final piece kind chosen by the constructor\<close>





section \<open>Rendering of promotion moves\<close>


section \<open>The board encoding and its decoder\<close>

declare natToString.simps [simp del]

lemma natToString_small: "n < 10 \<Longrightarrow> natToString n = [char_of (48 + n)]"
  by (subst natToString.simps) simp

lemma parseInt_letter: "parseInt (pieceLetter pc) = None"
  by (cases pc) (simp_all add: parseInt_def)

lemma pieceLetter_not_one: "pieceLetter pc \<noteq> CHR ''1''"
  by (cases pc) simp_all

lemma pieceLetter_not_sep: "pieceLetter pc \<noteq> CHR ''/'' \<and> pieceLetter pc \<noteq> CHR '' ''"
  by (cases pc) simp_all

lemma of_char_digit: "n < 10 \<Longrightarrow> (of_char (char_of (48 + n)) :: nat) = 48 + n"
  by (simp add: of_char_of)

lemma parseInt_digit: "n < 10 \<Longrightarrow> parseInt (char_of (48 + n)) = Some n"
  by (simp add: parseInt_def of_char_digit)

lemma digit_not_sep:
  fixes n :: nat
  assumes "n < 10"
  shows "char_of (48 + n) \<noteq> CHR ''/'' \<and> char_of (48 + n) \<noteq> CHR '' ''"
proof -
  have v: "(of_char (char_of (48 + n)) :: nat) = 48 + n"
    using assms by (rule of_char_digit)
  have "char_of (48 + n) \<noteq> CHR ''/''"
  proof
    assume "char_of (48 + n) = CHR ''/''"
    then have "(of_char (char_of (48 + n)) :: nat) = of_char CHR ''/''" by (rule arg_cong)
    with v show False by simp
  qed
  moreover have "char_of (48 + n) \<noteq> CHR '' ''"
  proof
    assume "char_of (48 + n) = CHR '' ''"
    then have "(of_char (char_of (48 + n)) :: nat) = of_char CHR '' ''" by (rule arg_cong)
    with v show False by simp
  qed
  ultimately show ?thesis by simp
qed

lemma rowString_Cons_Some [simp]: "rowString (Some pc # row) = pieceLetter pc # rowString row"
  by (simp add: rowString_def)

lemma rowString_Cons_None [simp]: "rowString (None # row) = CHR ''1'' # rowString row"
  by (simp add: rowString_def)

lemma rowString_Nil [simp]: "rowString [] = []"
  by (simp add: rowString_def)

lemma takeWhile_rowString:
  "length (takeWhile (\<lambda>d. d = CHR ''1'') (rowString row)) = length (takeWhile (\<lambda>cell. cell = None) row)"
proof (induction row)
  case Nil
  show ?case by simp
next
  case (Cons c row)
  then show ?case by (cases c) (simp_all add: pieceLetter_not_one)
qed

lemma dropWhile_rowString:
  "dropWhile (\<lambda>d. d = CHR ''1'') (rowString row) = rowString (dropWhile (\<lambda>cell. cell = None) row)"
proof (induction row)
  case Nil
  show ?case by simp
next
  case (Cons c row)
  then show ?case by (cases c) (simp_all add: pieceLetter_not_one)
qed

lemma replaceOnes_rowString: "replaceOnes (rowString row) = rankRunLength row"
proof (induction row rule: rankRunLength.induct)
  case 1
  show ?case by simp
next
  case (2 pc rest)
  then show ?case by (simp add: pieceLetter_not_one)
next
  case (3 rest)
  then show ?case by (simp add: takeWhile_rowString dropWhile_rowString)
qed

lemma takeWhile_None_replicate:
  "takeWhile (\<lambda>cell. cell = None) row = replicate (length (takeWhile (\<lambda>cell. cell = None) row)) None"
  by (induction row) auto

lemma None_run_split:
  "None # rest = replicate (1 + length (takeWhile (\<lambda>cell. cell = None) rest)) None
       @ dropWhile (\<lambda>cell. cell = None) rest"
proof -
  have "rest = takeWhile (\<lambda>cell. cell = None) rest @ dropWhile (\<lambda>cell. cell = None) rest"
    by simp
  then have "rest = replicate (length (takeWhile (\<lambda>cell. cell = None) rest)) None
      @ dropWhile (\<lambda>cell. cell = None) rest"
    using takeWhile_None_replicate [of rest] by simp
  then show ?thesis by (metis append_Cons plus_1_eq_Suc replicate_Suc)
qed

lemma run_bound: "length (None # rest) \<le> 9 \<Longrightarrow> 1 + length (takeWhile (\<lambda>cell. cell = None) rest) < 10"
  using length_takeWhile_le [of "\<lambda>cell. cell = None" rest] by simp

lemma decodeRow_letter:
  "parseInt c = None \<Longrightarrow>
   fst (decodeRow n (c # cs)) =
     Some \<lparr>tp_id = ''piece_'' @ natToString n, tp_type = c\<rparr> # fst (decodeRow (n + 1) cs)"
  by (simp add: split_beta)

lemma decodeRow_digit:
  "parseInt c = Some k \<Longrightarrow> fst (decodeRow n (c # cs)) = replicate k None @ fst (decodeRow n cs)"
  by (simp add: split_beta)

lemma decodeRow_rank:
  "length row \<le> 9 \<Longrightarrow>
   map (map_option tp_type) (fst (decodeRow n (rankRunLength row))) = map (map_option pieceLetter) row"
proof (induction row arbitrary: n rule: rankRunLength.induct)
  case 1
  show ?case by simp
next
  case (2 pc rest)
  then show ?case by (simp add: decodeRow_letter parseInt_letter del: decodeRow.simps)
next
  case (3 rest)
  define k where "k = 1 + length (takeWhile (\<lambda>cell. cell = None) rest)"
  let ?rest' = "dropWhile (\<lambda>cell. cell = None) rest"
  have k: "k < 10" unfolding k_def using 3 run_bound by blast
  have len: "length ?rest' \<le> 9"
    using "3.prems" length_dropWhile_le [of "\<lambda>cell. cell = None" rest] by simp
  have ih: "map (map_option tp_type) (fst (decodeRow n (rankRunLength ?rest')))
      = map (map_option pieceLetter) ?rest'"
    using "3.IH" len by blast
  have enc: "rankRunLength (None # rest) = char_of (48 + k) # rankRunLength ?rest'"
    using k natToString_small [of k] by (simp add: k_def)
  have "fst (decodeRow n (rankRunLength (None # rest)))
      = replicate k None @ fst (decodeRow n (rankRunLength ?rest'))"
    unfolding enc by (rule decodeRow_digit) (rule parseInt_digit [OF k])
  then have "map (map_option tp_type) (fst (decodeRow n (rankRunLength (None # rest))))
      = map (map_option pieceLetter) (replicate k None @ ?rest')"
    using ih by simp
  also have "\<dots> = map (map_option pieceLetter) (None # rest)"
    using None_run_split [of rest] by (simp add: k_def)
  finally show ?case .
qed

lemma decodeRows_ranks:
  "\<forall>row \<in> set rows. length row \<le> 9 \<Longrightarrow>
   decodedKinds (decodeRows n (map rankRunLength rows)) = kindsOf rows"
proof (induction rows arbitrary: n)
  case Nil
  show ?case by (simp add: decodedKinds_def kindsOf_def)
next
  case (Cons row rows)
  then show ?case
    using decodeRow_rank [of row n]
    by (simp add: decodedKinds_def kindsOf_def split_beta)
qed

lemma splitStr_no_sep: "sep \<notin> set s \<Longrightarrow> splitStr sep s = [s]"
  by (induction s) auto

lemma splitStr_append: "sep \<notin> set s \<Longrightarrow> splitStr sep (s @ sep # rest) = s # splitStr sep rest"
  by (induction s) auto

lemma splitStr_join:
  "rows \<noteq> [] \<Longrightarrow> \<forall>s \<in> set rows. sep \<notin> set s \<Longrightarrow> splitStr sep (join [sep] rows) = rows"
proof (induction "[sep]" rows rule: join.induct)
  case 1
  then show ?case by simp
next
  case (2 s)
  then show ?case by (simp add: splitStr_no_sep)
next
  case (3 s t ss)
  then show ?case by (simp add: splitStr_append)
qed

lemma rankRunLength_chars:
  "length row \<le> 9 \<Longrightarrow> CHR ''/'' \<notin> set (rankRunLength row) \<and> CHR '' '' \<notin> set (rankRunLength row)"
proof (induction row rule: rankRunLength.induct)
  case 1
  show ?case by simp
next
  case (2 pc rest)
  then show ?case using pieceLetter_not_sep [of pc] by auto
next
  case (3 rest)
  define k where "k = 1 + length (takeWhile (\<lambda>cell. cell = None) rest)"
  have k: "k < 10" unfolding k_def using 3 run_bound by blast
  have len: "length (dropWhile (\<lambda>cell. cell = None) rest) \<le> 9"
    using "3.prems" length_dropWhile_le [of "\<lambda>cell. cell = None" rest] by simp
  have enc: "rankRunLength (None # rest)
      = char_of (48 + k) # rankRunLength (dropWhile (\<lambda>cell. cell = None) rest)"
    using k natToString_small [of k] by (simp add: k_def)
  show ?case
    unfolding enc using "3.IH" len digit_not_sep [OF k] by auto
qed

lemma rankWidth_rank: "length row \<le> 9 \<Longrightarrow> rankWidth (rankRunLength row) = length row"
proof (induction row rule: rankRunLength.induct)
  case 1
  show ?case by (simp add: rankWidth_def)
next
  case (2 pc rest)
  then show ?case by (simp add: rankWidth_def parseInt_letter)
next
  case (3 rest)
  define k where "k = 1 + length (takeWhile (\<lambda>cell. cell = None) rest)"
  let ?rest' = "dropWhile (\<lambda>cell. cell = None) rest"
  have k: "k < 10" unfolding k_def using 3 run_bound by blast
  have len: "length ?rest' \<le> 9"
    using "3.prems" length_dropWhile_le [of "\<lambda>cell. cell = None" rest] by simp
  have enc: "rankRunLength (None # rest) = char_of (48 + k) # rankRunLength ?rest'"
    using k natToString_small [of k] by (simp add: k_def)
  have "rankWidth (rankRunLength (None # rest)) = k + length ?rest'"
    unfolding enc using "3.IH" len parseInt_digit [OF k] by (simp add: rankWidth_def)
  also have "\<dots> = length (replicate k (None :: SimplePiece option) @ ?rest')" by simp
  also have "\<dots> = length (None # rest)" using None_run_split [of rest] by (simp add: k_def)
  finally show ?case .
qed

lemma rowPieces_skip: "rowPieces (replicate m None @ row) = rowPieces row"
  by (induction m) simp_all

lemma letters_rank:
  "length row \<le> 9 \<Longrightarrow>
   filter (\<lambda>c. parseInt c = None) (rankRunLength row) = map pieceLetter (rowPieces row)"
proof (induction row rule: rankRunLength.induct)
  case 1
  show ?case by simp
next
  case (2 pc rest)
  then show ?case by (simp add: parseInt_letter)
next
  case (3 rest)
  define k where "k = 1 + length (takeWhile (\<lambda>cell. cell = None) rest)"
  let ?rest' = "dropWhile (\<lambda>cell. cell = None) rest"
  have k: "k < 10" unfolding k_def using 3 run_bound by blast
  have len: "length ?rest' \<le> 9"
    using "3.prems" length_dropWhile_le [of "\<lambda>cell. cell = None" rest] by simp
  have enc: "rankRunLength (None # rest) = char_of (48 + k) # rankRunLength ?rest'"
    using k natToString_small [of k] by (simp add: k_def)
  have "filter (\<lambda>c. parseInt c = None) (rankRunLength (None # rest))
      = map pieceLetter (rowPieces ?rest')"
    unfolding enc using "3.IH" len parseInt_digit [OF k] by simp
  also have "\<dots> = map pieceLetter (rowPieces (replicate k None @ ?rest'))"
    by (simp only: rowPieces_skip)
  also have "\<dots> = map pieceLetter (rowPieces (None # rest))"
    using None_run_split [of rest] by (simp add: k_def)
  finally show ?case .
qed

lemma fenRanks_eq:
  assumes "is8x8 (board g)"
  shows "fenRanks g = map rankRunLength (board g)"
proof -
  have rows: "\<forall>row \<in> set (board g). length row \<le> 9"
    using assms by (auto simp: is8x8_def list_all_iff)
  have ne: "map rankRunLength (board g) \<noteq> []"
    using assms by (auto simp: is8x8_def)
  have free: "\<forall>s \<in> set (map rankRunLength (board g)). CHR ''/'' \<notin> set s"
    using rows rankRunLength_chars by auto
  have "getFEN g = join ''/'' (map rankRunLength (board g))"
    by (simp add: getFEN_def replaceOnes_rowString)
  then show ?thesis
    unfolding fenRanks_def using splitStr_join [OF ne free] by simp
qed

lemma getFEN_no_space:
  assumes "is8x8 (board g)"
  shows "CHR '' '' \<notin> set (getFEN g)"
proof -
  have rows: "\<forall>row \<in> set (board g). length row \<le> 9"
    using assms by (auto simp: is8x8_def list_all_iff)
  have j: "\<forall>s \<in> set ss. CHR '' '' \<notin> set s \<Longrightarrow> CHR '' '' \<notin> set (join ''/'' ss)" for ss
    by (induction "''/''" ss rule: join.induct) auto
  have "getFEN g = join ''/'' (map rankRunLength (board g))"
    by (simp add: getFEN_def replaceOnes_rowString)
  then show ?thesis using j [of "map rankRunLength (board g)"] rows rankRunLength_chars by auto
qed

lemma fenToBoard_getFEN:
  assumes "is8x8 (board g)"
  shows "decodedKinds (fenToBoard (getFEN g)) = kindsOf (board g)"
    and "decodedKinds (fenToBoard (getFEN g @ '' w - - 0 1'')) = kindsOf (board g)"
proof -
  have rows: "\<forall>row \<in> set (board g). length row \<le> 9"
    using assms by (auto simp: is8x8_def list_all_iff)
  have a: "splitStr CHR '' '' (getFEN g) ! 0 = getFEN g"
    using getFEN_no_space [OF assms] by (simp add: splitStr_no_sep)
  have b: "splitStr CHR '' '' (getFEN g @ '' w - - 0 1'') ! 0 = getFEN g"
    using getFEN_no_space [OF assms] splitStr_append [of "CHR '' ''" "getFEN g" "''w - - 0 1''"]
    by simp
  have c: "splitStr CHR ''/'' (getFEN g) = map rankRunLength (board g)"
    using fenRanks_eq [OF assms] by (simp add: fenRanks_def)
  show "decodedKinds (fenToBoard (getFEN g)) = kindsOf (board g)"
    unfolding fenToBoard_def a c using decodeRows_ranks [OF rows] by simp
  show "decodedKinds (fenToBoard (getFEN g @ '' w - - 0 1'')) = kindsOf (board g)"
    unfolding fenToBoard_def b c using decodeRows_ranks [OF rows] by simp
qed

lemma count_kinds:
  "length (filter (\<lambda>cell. cell \<noteq> None) (concat (map (map (map_option f)) b)))
   = length (filter (\<lambda>cell. cell \<noteq> None) (concat b))"
proof -
  have "filter (\<lambda>cell. cell \<noteq> None) (concat (map (map (map_option f)) b))
      = map (map_option f) (filter (\<lambda>cell. cell \<noteq> None) (concat b))"
    by (simp add: map_concat [symmetric] filter_map comp_def)
  then show ?thesis by simp
qed

text \<open>
  C7. For a board of eight rows of eight cells, getFEN gives eight rank strings
  separated by /; each is the run-length encoding of its row, its letters are the
  pieces of the row in file order, and its letters and digits account for eight squares.
  Decoding the string as fenToBoard does, with or without the fields the caller
  appends, gives back the arrangement of kinds, so the decoded board has as many pieces
  as the board has occupied cells.
\<close>

theorem getFEN_roundtrip:
  assumes "is8x8 (board g)"
  shows "fenRanks g = map rankRunLength (board g)
    \<and> length (fenRanks g) = 8
    \<and> list_all (\<lambda>row. filter (\<lambda>c. parseInt c = None) (rankRunLength row) = map pieceLetter (rowPieces row)
                   \<and> rankWidth (rankRunLength row) = 8) (board g)
    \<and> decodedKinds (fenToBoard (getFEN g)) = kindsOf (board g)
    \<and> decodedKinds (fenToBoard (getFEN g @ '' w - - 0 1'')) = kindsOf (board g)
    \<and> length (filter (\<lambda>cell. cell \<noteq> None) (concat (fenToBoard (getFEN g))))
        = length (remainingPieces (board g))"
proof -
  have r8: "\<forall>row \<in> set (board g). length row = 8"
    using assms by (auto simp: is8x8_def list_all_iff)
  have ranks: "fenRanks g = map rankRunLength (board g)"
    by (rule fenRanks_eq [OF assms])
  have n8: "length (fenRanks g) = 8"
    using assms by (simp add: ranks is8x8_def)
  have each: "list_all (\<lambda>row. filter (\<lambda>c. parseInt c = None) (rankRunLength row) = map pieceLetter (rowPieces row)
                   \<and> rankWidth (rankRunLength row) = 8) (board g)"
    unfolding list_all_iff using r8 letters_rank rankWidth_rank by fastforce
  have rt: "decodedKinds (fenToBoard (getFEN g)) = kindsOf (board g)"
    by (rule fenToBoard_getFEN(1) [OF assms])
  have cnt: "length (filter (\<lambda>cell. cell \<noteq> None) (concat (fenToBoard (getFEN g))))
        = length (remainingPieces (board g))"
  proof -
    have "length (filter (\<lambda>cell. cell \<noteq> None) (concat (fenToBoard (getFEN g))))
        = length (filter (\<lambda>cell. cell \<noteq> None) (concat (decodedKinds (fenToBoard (getFEN g)))))"
      unfolding decodedKinds_def by (rule count_kinds [symmetric])
    also have "\<dots> = length (filter (\<lambda>cell. cell \<noteq> None) (concat (kindsOf (board g))))"
      by (simp only: rt)
    also have "\<dots> = length (remainingPieces (board g))"
      unfolding kindsOf_def remainingPieces_def by (rule count_kinds)
    finally show ?thesis .
  qed
  from ranks n8 each rt fenToBoard_getFEN(2) [OF assms] cnt show ?thesis by blast
qed

theorem getFEN_roundtrip_witness:
  "is8x8 (board (initialFields Queen 0\<lparr>board := sampleBoard\<rparr>))
     \<and> getFEN (initialFields Queen 0\<lparr>board := sampleBoard\<rparr>) = ''1Q6/KP5R/8/8/8/8/8/8''
     \<and> decodedKinds (fenToBoard (getFEN (initialFields Queen 0\<lparr>board := sampleBoard\<rparr>)))
         = kindsOf sampleBoard"
proof -
  have a: "is8x8 (board (initialFields Queen 0\<lparr>board := sampleBoard\<rparr>))" by code_simp
  have b: "getFEN (initialFields Queen 0\<lparr>board := sampleBoard\<rparr>) = ''1Q6/KP5R/8/8/8/8/8/8''"
    by code_simp
  from a b getFEN_roundtrip [OF a] show ?thesis by simp
qed

section \<open>Reading and writing cells\<close>

lemma boardGet_Cell_iff:
  "boardGet b pos = Cell c \<longleftrightarrow> inRange b pos \<and> c = b ! nat (snd pos) ! nat (fst pos)"
  by (auto simp: boardGet_def inRange_def Let_def)

lemma boardGet_inRange: "inRange b pos \<Longrightarrow> boardGet b pos = Cell (b ! nat (snd pos) ! nat (fst pos))"
  by (simp add: boardGet_Cell_iff)

lemma boardSet_Inr_iff:
  "boardSet b pos v = Inr b' \<longleftrightarrow>
     inRange b pos \<and> b' = b[nat (snd pos) := (b ! nat (snd pos))[nat (fst pos) := v]]"
  by (auto simp: boardSet_def inRange_def Let_def)

lemma boardSet_inRange: "inRange b pos \<Longrightarrow> \<exists>b'. boardSet b pos v = Inr b'"
  by (simp add: boardSet_Inr_iff)

lemma boardSet_OutsideModel:
  "boardSet b pos v = Inl e \<Longrightarrow> \<not> inRange b pos"
  by (auto simp: boardSet_def inRange_def Let_def split: if_splits)

lemma inRange_nat:
  assumes "inRange b pos"
  shows "nat (snd pos) < length b" and "nat (fst pos) < length (b ! nat (snd pos))"
  using assms by (auto simp: inRange_def nat_less_iff)

lemma boardSet_dims:
  assumes "boardSet b pos v = Inr b'"
  shows "length b' = length b" and "length (b' ! i) = length (b ! i)"
proof -
  from assms have b': "b' = b[nat (snd pos) := (b ! nat (snd pos))[nat (fst pos) := v]]"
    and r: "inRange b pos"
    by (simp_all add: boardSet_Inr_iff)
  show "length b' = length b" by (simp add: b')
  show "length (b' ! i) = length (b ! i)"
    using inRange_nat [OF r] by (cases "i = nat (snd pos)") (simp_all add: b')
qed

lemma boardSet_inRange_eq:
  assumes "boardSet b pos v = Inr b'"
  shows "inRange b' q = inRange b q"
  using boardSet_dims [OF assms] by (simp add: inRange_def)

lemma boardSet_get:
  assumes "boardSet b pos v = Inr b'"
  shows "boardGet b' q = (if q = pos then Cell v else boardGet b q)"
proof -
  from assms have b': "b' = b[nat (snd pos) := (b ! nat (snd pos))[nat (fst pos) := v]]"
    and r: "inRange b pos"
    by (simp_all add: boardSet_Inr_iff)
  have dims: "length b' = length b" "\<And>i. length (b' ! i) = length (b ! i)"
    using boardSet_dims [OF assms] by simp_all
  show ?thesis
  proof (cases "q = pos")
    case True
    have "b' ! nat (snd pos) ! nat (fst pos) = v"
      using inRange_nat [OF r] by (simp add: b')
    then show ?thesis
      using r True by (simp add: boardGet_def Let_def dims inRange_def)
  next
    case False
    then have ne: "fst q \<noteq> fst pos \<or> snd q \<noteq> snd pos" by (auto simp: prod_eq_iff)
    have key: "b' ! nat (snd q) ! nat (fst q) = b ! nat (snd q) ! nat (fst q)" if q: "inRange b q"
      using r ne inRange_nat [OF r] inRange_nat [OF q] q unfolding b' inRange_def
      by (cases "nat (snd q) = nat (snd pos)") (auto simp: nth_list_update)
    show ?thesis
    proof (cases "inRange b q")
      case True
      then show ?thesis using key \<open>q \<noteq> pos\<close>
        by (simp add: boardGet_def Let_def dims inRange_def)
    next
      case nr: False
      then have "\<not> (0 \<le> snd q \<and> snd q < int (length b)) \<or>
          \<not> (0 \<le> fst q \<and> fst q < int (length (b ! nat (snd q))))"
        by (auto simp: inRange_def)
      then show ?thesis using \<open>q \<noteq> pos\<close>
        by (auto simp: boardGet_def Let_def dims)
    qed
  qed
qed

lemma count_list_update:
  "i < length xs \<Longrightarrow>
   int (length (filter p (xs[i := v]))) =
     int (length (filter p xs)) - of_bool (p (xs ! i)) + of_bool (p v)"
proof (induction xs arbitrary: i)
  case Nil
  then show ?case by simp
next
  case (Cons a xs)
  then show ?case by (cases i) auto
qed

lemma sum_list_update_int:
  "k < length xs \<Longrightarrow> sum_list (xs[k := v]) = sum_list xs + v - (xs ! k :: int)"
proof (induction xs arbitrary: k)
  case Nil
  then show ?case by simp
next
  case (Cons a xs)
  then show ?case by (cases k) auto
qed

lemma countCells_sum: "int (countCells p b) = (\<Sum>row\<leftarrow>b. int (length (filter p row)))"
  unfolding countCells_def by (induction b) simp_all

lemma boardSet_count:
  assumes "boardSet b pos v = Inr b'" and "boardGet b pos = Cell old"
  shows "int (countCells p b') = int (countCells p b) - of_bool (p old) + of_bool (p v)"
proof -
  from assms have b': "b' = b[nat (snd pos) := (b ! nat (snd pos))[nat (fst pos) := v]]"
    and r: "inRange b pos" and old: "old = b ! nat (snd pos) ! nat (fst pos)"
    by (simp_all add: boardSet_Inr_iff boardGet_Cell_iff)
  let ?y = "nat (snd pos)" and ?x = "nat (fst pos)"
  let ?f = "\<lambda>row. int (length (filter p row))"
  have y: "?y < length b" and x: "?x < length (b ! ?y)"
    using inRange_nat [OF r] by simp_all
  have "int (countCells p b') = sum_list ((map ?f b)[?y := ?f ((b ! ?y)[?x := v])])"
    by (simp add: countCells_sum b' map_update)
  also have "\<dots> = sum_list (map ?f b) + ?f ((b ! ?y)[?x := v]) - (map ?f b) ! ?y"
    using y by (simp add: sum_list_update_int)
  also have "\<dots> = sum_list (map ?f b) + ?f ((b ! ?y)[?x := v]) - ?f (b ! ?y)"
    using y by simp
  also have "\<dots> = sum_list (map ?f b) - of_bool (p old) + of_bool (p v)"
    using count_list_update [OF x, of p v] by (simp add: old)
  finally show ?thesis by (simp add: countCells_sum)
qed

lemma frac_index: "0 < n \<Longrightarrow> nat \<lfloor>frac (r::rat) * of_nat n\<rfloor> < n"
proof -
  assume n: "0 < n"
  have "frac r * of_nat n < of_nat n"
    using frac_lt_1 [of r] n by simp
  then have "\<lfloor>frac r * of_nat n\<rfloor> < int n"
    by (simp add: floor_less_iff)
  moreover have "0 \<le> \<lfloor>frac r * of_nat n\<rfloor>"
    using frac_ge_0 [of r] by simp
  ultimately show ?thesis by (simp add: nat_less_iff)
qed

lemma frac_floor_range:
  fixes r :: rat
  shows "0 \<le> \<lfloor>frac r * 8\<rfloor> \<and> \<lfloor>frac r * 8\<rfloor> < 8" and "0 \<le> \<lfloor>frac r * 4\<rfloor> \<and> \<lfloor>frac r * 4\<rfloor> < 4"
proof -
  have a: "0 \<le> frac r" "frac r < 1" using frac_ge_0 frac_lt_1 by auto
  show "0 \<le> \<lfloor>frac r * 8\<rfloor> \<and> \<lfloor>frac r * 8\<rfloor> < 8"
    using a by (simp add: floor_less_iff)
  show "0 \<le> \<lfloor>frac r * 4\<rfloor> \<and> \<lfloor>frac r * 4\<rfloor> < 4"
    using a by (simp add: floor_less_iff)
qed

section \<open>Frame and range of the random choices\<close>

lemma sameCore_refl [simp]: "sameCore g g"
  by (simp add: sameCore_def)

lemma sameCore_trans: "sameCore g g1 \<Longrightarrow> sameCore g1 g2 \<Longrightarrow> sameCore g g2"
  by (simp add: sameCore_def)

lemma sameCore_genInv: "sameCore g g' \<Longrightarrow> genInv g' = genInv g"
  by (simp add: sameCore_def genInv_def)

lemma sameCore_ledgerOk: "sameCore g g' \<Longrightarrow> ledgerOk g' = ledgerOk g"
  by (simp add: sameCore_def ledgerOk_def)

lemma is8x8_inRange: "is8x8 b \<Longrightarrow> inRange b pos = onBoard pos"
  by (auto simp: is8x8_def inRange_def onBoard_def list_all_length nat_less_iff)

lemma is8x8_boardSet: "boardSet b pos v = Inr b' \<Longrightarrow> is8x8 b \<Longrightarrow> is8x8 b'"
  using boardSet_dims [of b pos v b'] by (simp add: is8x8_def list_all_length)

lemma is8x8_emptyBoard: "is8x8 emptyBoard"
  by (simp add: is8x8_def emptyBoard_def list_all_iff)

lemma countCells_emptyBoard: "\<not> p None \<Longrightarrow> countCells p emptyBoard = 0"
  by (auto simp: countCells_def emptyBoard_def filter_empty_conv)

lemma boardGet_emptyBoard: "onBoard pos \<Longrightarrow> boardGet emptyBoard pos = Cell None"
proof -
  assume ob: "onBoard pos"
  then have r: "inRange emptyBoard pos" by (simp add: is8x8_inRange is8x8_emptyBoard)
  have "emptyBoard ! nat (snd pos) ! nat (fst pos) = None"
    using inRange_nat [OF r] by (simp add: emptyBoard_def)
  then show ?thesis using r by (simp add: boardGet_Cell_iff)
qed

subsection \<open>Random draws\<close>

lemma mathRandom_sameCore: "sameCore g (snd (mathRandom rnd g))"
  by (simp add: mathRandom_def sameCore_def)

lemma mathRandom_range: "0 \<le> fst (mathRandom rnd g) \<and> fst (mathRandom rnd g) < 1"
  by (simp add: mathRandom_def frac_lt_1)

lemma mathRandom_eq: "mathRandom rnd g = (frac (rnd (rngPos g)), g\<lparr>rngPos := rngPos g + 1\<rparr>)"
  by (simp add: mathRandom_def)

lemma randomElement_sameCore: "sameCore g (snd (randomElement rnd xs g))"
  by (simp add: randomElement_def mathRandom_def sameCore_def)

lemma randomElement_member: "xs \<noteq> [] \<Longrightarrow> fst (randomElement rnd xs g) \<in> set xs"
  using frac_index [of "length xs" "rnd (rngPos g)"]
  by (simp add: randomElement_def mathRandom_def)

lemma getRandomQuadrant_sameCore: "sameCore g (snd (getRandomQuadrant rnd g))"
  by (simp add: getRandomQuadrant_def mathRandom_def sameCore_def Let_def)

lemma getRandomQuadrant_onBoard: "onBoard (fst (getRandomQuadrant rnd g))"
proof -
  define q where "q = \<lfloor>frac (rnd (rngPos g)) * 4\<rfloor>"
  define x where "x = \<lfloor>frac (rnd (rngPos g + 1)) * 4\<rfloor>"
  define y where "y = \<lfloor>frac (rnd (rngPos g + 2)) * 4\<rfloor>"
  define qm where "qm = q mod 2"
  define qd where "qd = q div 2"
  have q: "0 \<le> q \<and> q < 4" unfolding q_def by (rule frac_floor_range(2))
  then have m: "0 \<le> qm \<and> qm \<le> 1" and d: "0 \<le> qd \<and> qd \<le> 1"
    unfolding qm_def qd_def by auto
  have x: "0 \<le> x \<and> x < 4" unfolding x_def by (rule frac_floor_range(2))
  have y: "0 \<le> y \<and> y < 4" unfolding y_def by (rule frac_floor_range(2))
  have "fst (getRandomQuadrant rnd g) = (x + qm * 4, y + qd * 4)"
    by (simp add: getRandomQuadrant_def mathRandom_def Let_def q_def x_def y_def qm_def qd_def
        numeral_2_eq_2)
  then show ?thesis using m d x y by (simp add: onBoard_def)
qed

lemma randomPosition_sameCore: "sameCore g (snd (randomPosition rnd g))"
proof -
  have "sameCore (g\<lparr>rngPos := rngPos g + 1\<rparr>) (snd (getRandomQuadrant rnd (g\<lparr>rngPos := rngPos g + 1\<rparr>)))"
    by (rule getRandomQuadrant_sameCore)
  then show ?thesis
    by (simp add: randomPosition_def mathRandom_def Let_def sameCore_def)
qed

lemma randomPosition_onBoard: "onBoard (fst (randomPosition rnd g))"
proof -
  have a: "onBoard (fst (getRandomQuadrant rnd (g\<lparr>rngPos := rngPos g + 1\<rparr>)))"
    by (rule getRandomQuadrant_onBoard)
  have b: "onBoard (\<lfloor>frac (rnd (rngPos g + 1)) * 8\<rfloor>, \<lfloor>frac (rnd (rngPos g + 2)) * 8\<rfloor>)"
    using frac_floor_range(1) [of "rnd (rngPos g + 1)"] frac_floor_range(1) [of "rnd (rngPos g + 2)"]
    by (simp add: onBoard_def)
  show ?thesis
    using a b by (simp add: randomPosition_def mathRandom_def Let_def numeral_2_eq_2)
qed

lemma pickWeighted_member: "pickWeighted r ws = Some pc \<Longrightarrow> pc \<in> fst ` set ws"
  by (induction r ws rule: pickWeighted.induct) (auto split: if_splits)

lemma adjustedWeights_no_King: "King \<notin> fst ` set (adjustedWeights True lu)"
  by (auto simp: adjustedWeights_def PIECE_WEIGHTS_def)

lemma getRandomPiece_sameCore: "sameCore g (snd (getRandomPiece rnd ek g))"
  by (simp add: getRandomPiece_def mathRandom_def Let_def sameCore_def split: option.splits)

lemma getRandomPiece_not_King: "fst (getRandomPiece rnd True g) \<noteq> King"
  using pickWeighted_member adjustedWeights_no_King
  by (fastforce simp: getRandomPiece_def mathRandom_def Let_def split: option.splits)

subsection \<open>placePiece and removePiece\<close>

lemma placePiece_Inr:
  assumes "placePiece pc pos g = (Inr pid, g')"
  shows "boardSet (board g) pos (Some pc) = Inr (board g')"
    and "pieceCount g' = pieceCount g + 1"
    and "solution g' = solution g"
    and "moveCounts g' = (moveCounts g)(nextPieceId g \<mapsto> 0)"
    and "pid = nextPieceId g"
    and "nextPieceId g' = nextPieceId g + 1"
    and "pieceLocations g' = pieceLocations g"
    and "finalPiece g' = finalPiece g"
  using assms
  by (auto simp: placePiece_def generatePieceId_def Let_def split: if_splits sum.splits)

lemma placePiece_Inl:
  assumes "placePiece pc pos g = (Inl e, g')"
  shows "board g' = board g"
    and "pieceCount g' = pieceCount g"
    and "solution g' = solution g"
    and "moveCounts g' = moveCounts g"
    and "pieceLocations g' = pieceLocations g"
    and "finalPiece g' = finalPiece g"
    and "e = InvalidPawnPlacement \<or> \<not> inRange (board g) pos"
  using assms boardSet_OutsideModel [of "board g" pos "Some pc"]
  by (auto simp: placePiece_def generatePieceId_def Let_def split: if_splits sum.splits)

lemma removePiece_Inr:
  assumes "removePiece pos g = (Inr u, g')"
  shows "boardSet (board g) pos None = Inr (board g')"
    and "pieceCount g' = pieceCount g - 1"
    and "solution g' = solution g"
    and "moveCounts g' = moveCounts g"
    and "nextPieceId g' = nextPieceId g"
    and "pieceLocations g' = pieceLocations g"
    and "finalPiece g' = finalPiece g"
  using assms by (auto simp: removePiece_def split: sum.splits)

lemma removePiece_Inl:
  assumes "removePiece pos g = (Inl e, g')"
  shows "g' = g" and "\<not> inRange (board g) pos"
  using assms boardSet_OutsideModel [of "board g" pos None]
  by (auto simp: removePiece_def split: sum.splits)

subsection \<open>The reverse search\<close>

lemma isValidMove_None: "isValidMove b from to None back = Inr False"
  by (simp add: isValidMove_def)

lemma scanSquares_candidates:
  "scanSquares b from pc squares cands promos = Inr (cands', promos') \<Longrightarrow>
   set cands' \<union> set promos' \<subseteq>
     set cands \<union> set promos \<union>
       {t \<in> set squares. boardGet b t = Cell None \<and> isValidMove b from t pc True = Inr True}"
proof (induction squares arbitrary: cands promos)
  case Nil
  then show ?case by auto
next
  case (Cons t rest)
  show ?case
  proof (cases "boardGet b t = Cell None \<and> isValidMove b from t pc True = Inr True")
    case True
    then show ?thesis
      using Cons.prems Cons.IH [of cands "promos @ [t]"] Cons.IH [of "cands @ [t]" promos]
      by (auto split: if_splits)
  next
    case False
    then have "scanSquares b from pc rest cands promos = Inr (cands', promos')"
      using Cons.prems by (auto split: slot.splits if_splits sum.splits)
    from Cons.IH [OF this] show ?thesis by auto
  qed
qed

lemma scanSquares_None:
  "scanSquares b from None squares cands promos = Inr (cands', promos') \<Longrightarrow>
   cands' = cands \<and> promos' = promos"
  by (induction squares arbitrary: cands promos)
     (auto simp: isValidMove_None split: slot.splits if_splits)

lemma findValidCapturePosition_sameCore:
  "findValidCapturePosition rnd from pc g = (res, g') \<Longrightarrow> sameCore g g'"
  by (auto simp: findValidCapturePosition_def randomElement_def mathRandom_def Let_def
      sameCore_def split_beta split: sum.splits if_splits)

lemma findValidCapturePosition_None:
  "findValidCapturePosition rnd from None g = (res, g') \<Longrightarrow> res \<noteq> Inr (Some r)"
  by (auto simp: findValidCapturePosition_def split: sum.splits dest: scanSquares_None)

lemma findValidCapturePosition_Some:
  assumes "findValidCapturePosition rnd from pc g = (Inr (Some (position, promoted)), g')"
  shows "boardGet (board g) position = Cell None"
    and "isValidMove (board g) from position pc True = Inr True"
    and "position \<in> set boardSquares"
    and "promoted \<noteq> Some King"
proof -
  obtain cands promos where sc: "scanSquares (board g) from pc boardSquares [] [] = Inr (cands, promos)"
    using assms by (auto simp: findValidCapturePosition_def split: sum.splits)
  let ?ok = "{t \<in> set boardSquares. boardGet (board g) t = Cell None
      \<and> isValidMove (board g) from t pc True = Inr True}"
  have sub: "set cands \<union> set promos \<subseteq> ?ok"
    using scanSquares_candidates [OF sc] by simp
  have pp: "fst (randomElement rnd promotionPieces h) \<noteq> King" for h
    using randomElement_member [of promotionPieces rnd h] by (auto simp: promotionPieces_def)
  have pos: "position \<in> set cands \<union> set promos"
    using assms sc randomElement_member [of promos rnd g] randomElement_member [of "cands @ promos" rnd g]
    by (auto simp: findValidCapturePosition_def Let_def split_beta split: if_splits)
  with sub show "boardGet (board g) position = Cell None"
    and "isValidMove (board g) from position pc True = Inr True"
    and "position \<in> set boardSquares" by auto
  show "promoted \<noteq> Some King"
    using assms sc pp
    by (auto simp: findValidCapturePosition_def Let_def split_beta split: if_splits)
qed

lemma setLocation_fields [simp]:
  "board (setLocation pid pos g) = board g"
  "solution (setLocation pid pos g) = solution g"
  "pieceCount (setLocation pid pos g) = pieceCount g"
  "moveCounts (setLocation pid pos g) = moveCounts g"
  "nextPieceId (setLocation pid pos g) = nextPieceId g"
  "finalPiece (setLocation pid pos g) = finalPiece g"
  "pieceLocations (setLocation pid pos g) = mapSet pid pos (pieceLocations g)"
  by (simp_all add: setLocation_def)

lemma incrementMoveCount_fields [simp]:
  "board (incrementMoveCount pid g) = board g"
  "solution (incrementMoveCount pid g) = solution g"
  "pieceCount (incrementMoveCount pid g) = pieceCount g"
  "nextPieceId (incrementMoveCount pid g) = nextPieceId g"
  "finalPiece (incrementMoveCount pid g) = finalPiece g"
  "pieceLocations (incrementMoveCount pid g) = pieceLocations g"
  "moveCounts (incrementMoveCount pid g) =
     (moveCounts g)(pid \<mapsto> moveCountOf (moveCounts g) pid + 1)"
  by (simp_all add: incrementMoveCount_def)

lemma genInv_setLocation [simp]: "genInv (setLocation pid pos g) = genInv g"
  by (simp add: genInv_def)

lemma genInv_incrementMoveCount [simp]: "genInv (incrementMoveCount pid g) = genInv g"
  by (simp add: genInv_def)

text \<open>Placing a piece on an empty square keeps the invariant when the piece is no second King.\<close>

lemma placePiece_genInv:
  assumes ok: "placePiece pc pos g = (Inr pid, g')"
    and inv: "genInv g"
    and empty: "boardGet (board g) pos = Cell None"
    and king: "pc = King \<Longrightarrow> countCells (\<lambda>c. c = Some King) (board g) = 0"
  shows "genInv g'"
proof -
  note bs = placePiece_Inr(1) [OF ok]
  have c1: "int (countCells (\<lambda>c. c \<noteq> None) (board g')) = int (countCells (\<lambda>c. c \<noteq> None) (board g)) + 1"
    using boardSet_count [OF bs empty, of "\<lambda>c. c \<noteq> None"] by simp
  have c2: "int (countCells (\<lambda>c. c = Some King) (board g'))
      = int (countCells (\<lambda>c. c = Some King) (board g)) + of_bool (pc = King)"
    using boardSet_count [OF bs empty, of "\<lambda>c. c = Some King"] by simp
  have k: "countCells (\<lambda>c. c = Some King) (board g') \<le> 1"
    using c2 king inv by (cases "pc = King") (simp_all add: genInv_def)
  show ?thesis
    using inv c1 k is8x8_boardSet [OF bs] placePiece_Inr(2,3) [OF ok]
    by (simp add: genInv_def)
qed

lemma relocate_Inr:
  assumes ok: "relocate rnd sel cur cp position promoted g = (Inr u, g')"
  obtains g1 ida g2 idb g5 where
    "removePiece cur g = (Inr (), g1)"
    "placePiece (case promoted of Some pp \<Rightarrow> pp | None \<Rightarrow> cp) position g1 = (Inr ida, g2)"
    "placePiece (fst (getRandomPiece rnd True (incrementMoveCount sel (setLocation sel position g2))))
       cur (snd (getRandomPiece rnd True (incrementMoveCount sel (setLocation sel position g2))))
     = (Inr idb, g5)"
    "g' = (setLocation idb cur g5)\<lparr>solution := solution g5 @
       [\<lparr>mv_from = position, mv_to = cur,
         captured = fst (getRandomPiece rnd True (incrementMoveCount sel (setLocation sel position g2))),
         piece = (case promoted of Some pp \<Rightarrow> pp | None \<Rightarrow> cp), pieceId = sel,
         wasPromotion = (promoted \<noteq> None)\<rparr>]\<rparr>"
proof -
  define mp where "mp = (case promoted of Some pp \<Rightarrow> pp | None \<Rightarrow> cp)"
  obtain r1 g1 where a: "removePiece cur g = (r1, g1)" by force
  have r1: "r1 = Inr ()"
    using ok a by (cases r1) (simp_all add: relocate_def)
  obtain r2 g2 where b: "placePiece mp position g1 = (r2, g2)" by force
  obtain ida where r2: "r2 = Inr ida"
    using ok a r1 b by (cases r2) (simp_all add: relocate_def mp_def)
  define g3 where "g3 = incrementMoveCount sel (setLocation sel position g2)"
  obtain r5 g5 where c: "placePiece (fst (getRandomPiece rnd True g3)) cur (snd (getRandomPiece rnd True g3)) = (r5, g5)"
    by force
  obtain idb where r5: "r5 = Inr idb"
    using ok a r1 b r2 c by (cases r5) (simp_all add: relocate_def mp_def g3_def Let_def split_beta)
  have g': "g' = (setLocation idb cur g5)\<lparr>solution := solution g5 @
       [\<lparr>mv_from = position, mv_to = cur, captured = fst (getRandomPiece rnd True g3),
         piece = mp, pieceId = sel, wasPromotion = (promoted \<noteq> None)\<rparr>]\<rparr>"
    using ok a r1 b r2 c r5
    by (simp add: relocate_def mp_def g3_def Let_def split_beta setLocation_def)
  show ?thesis
    using that [of g1 ida g2 idb g5] a r1 b r2 c r5 g' by (simp add: mp_def g3_def)
qed

lemma relocate_genInv:
  assumes ok: "relocate rnd sel cur cp position promoted g = (Inr u, g')"
    and inv: "genInv g"
    and cur: "boardGet (board g) cur = Cell (Some cp)"
    and pos: "boardGet (board g) position = Cell None"
    and promo: "promoted \<noteq> Some King"
  shows "genInv g' \<and> pieceCount g' = pieceCount g + 1"
proof -
  define mp where "mp = (case promoted of Some pp \<Rightarrow> pp | None \<Rightarrow> cp)"
  from ok obtain g1 ida g2 idb g5 where
    rm: "removePiece cur g = (Inr (), g1)" and
    p1: "placePiece mp position g1 = (Inr ida, g2)" and
    p2: "placePiece (fst (getRandomPiece rnd True (incrementMoveCount sel (setLocation sel position g2))))
       cur (snd (getRandomPiece rnd True (incrementMoveCount sel (setLocation sel position g2))))
     = (Inr idb, g5)" and
    g': "g' = (setLocation idb cur g5)\<lparr>solution := solution g5 @
       [\<lparr>mv_from = position, mv_to = cur,
         captured = fst (getRandomPiece rnd True (incrementMoveCount sel (setLocation sel position g2))),
         piece = mp, pieceId = sel, wasPromotion = (promoted \<noteq> None)\<rparr>]\<rparr>"
    unfolding mp_def by (rule relocate_Inr)
  define g3 where "g3 = incrementMoveCount sel (setLocation sel position g2)"
  define np where "np = fst (getRandomPiece rnd True g3)"
  define g4 where "g4 = snd (getRandomPiece rnd True g3)"
  have np: "np \<noteq> King" unfolding np_def by (rule getRandomPiece_not_King)
  have core4: "sameCore g3 g4" unfolding g4_def by (rule getRandomPiece_sameCore)
  have p2': "placePiece np cur g4 = (Inr idb, g5)"
    using p2 by (simp add: np_def g4_def g3_def)
  have ne: "position \<noteq> cur" using cur pos by auto
  have i8: "is8x8 (board g)" using inv by (simp add: genInv_def)
  \<comment> \<open>the mover leaves its square\<close>
  note bs1 = removePiece_Inr(1) [OF rm]
  have n1: "int (countCells (\<lambda>c. c \<noteq> None) (board g1)) = int (countCells (\<lambda>c. c \<noteq> None) (board g)) - 1"
    using boardSet_count [OF bs1 cur, of "\<lambda>c. c \<noteq> None"] by simp
  have k1: "int (countCells (\<lambda>c. c = Some King) (board g1))
      = int (countCells (\<lambda>c. c = Some King) (board g)) - of_bool (cp = King)"
    using boardSet_count [OF bs1 cur, of "\<lambda>c. c = Some King"] by simp
  have k1le: "countCells (\<lambda>c. c = Some King) (board g1) \<le> countCells (\<lambda>c. c = Some King) (board g)"
    using k1 by (cases "cp = King") simp_all
  have inv1: "genInv g1"
    using inv n1 k1le is8x8_boardSet [OF bs1] removePiece_Inr(2,3) [OF rm]
    by (simp add: genInv_def)
  have pos1: "boardGet (board g1) position = Cell None"
    using boardSet_get [OF bs1, of position] ne pos by simp
  have cur1: "boardGet (board g1) cur = Cell None"
    using boardSet_get [OF bs1, of cur] by simp
  \<comment> \<open>and arrives on the empty square found for it\<close>
  have mpk: "mp = King \<Longrightarrow> countCells (\<lambda>c. c = Some King) (board g1) = 0"
  proof -
    assume "mp = King"
    then have "cp = King" using promo by (cases promoted) (simp_all add: mp_def)
    then show ?thesis using k1 inv by (simp add: genInv_def)
  qed
  have inv2: "genInv g2" by (rule placePiece_genInv [OF p1 inv1 pos1 mpk])
  note bs2 = placePiece_Inr(1) [OF p1]
  have cur2: "boardGet (board g2) cur = Cell None"
    using boardSet_get [OF bs2, of cur] ne cur1 by simp
  have inv4: "genInv g4" and cur4: "boardGet (board g4) cur = Cell None"
    using core4 inv2 cur2 sameCore_genInv [OF core4] by (simp_all add: g3_def sameCore_def)
  \<comment> \<open>the captured piece appears on the vacated square\<close>
  have inv5: "genInv g5"
    by (rule placePiece_genInv [OF p2' inv4 cur4]) (simp add: np)
  have ob: "onBoard position \<and> onBoard cur"
    using cur pos i8 by (auto simp: boardGet_Cell_iff is8x8_inRange)
  have sol: "solutionOk (solution g')"
    using inv5 np ne ob by (simp add: g' genInv_def solutionOk_def np_def g3_def)
  have cnt: "pieceCount g' = pieceCount g + 1"
    using placePiece_Inr(2) [OF p2'] placePiece_Inr(2) [OF p1] removePiece_Inr(2) [OF rm] core4
    by (simp add: g' g3_def sameCore_def)
  show ?thesis
    using inv5 sol cnt by (simp add: g' genInv_def)
qed

lemma losWhile_error: "losWhile b from to k = Inl e \<Longrightarrow> e = TypeError"
proof (induction b "from" to k rule: losWhile.induct)
  case (1 b "from" to k)
  define x where "x = fst from + k * stepOf (fst to - fst from)"
  define y where "y = snd from + k * stepOf (snd to - snd from)"
  have unf: "losWhile b from to k =
      (if x \<noteq> fst to \<or> y \<noteq> snd to then
         (case boardGet b (x, y) of
            NoRow \<Rightarrow> Inl TypeError
          | Undefined \<Rightarrow> Inr False
          | Cell (Some pc) \<Rightarrow> Inr False
          | Cell None \<Rightarrow> losWhile b from to (k + 1))
       else Inr True)"
    by (subst losWhile.simps) (simp add: x_def y_def Let_def)
  show ?case
  proof (cases "boardGet b (x, y) = Cell None \<and> (x \<noteq> fst to \<or> y \<noteq> snd to)")
    case True
    then have "losWhile b from to (k + 1) = Inl e" using "1.prems" unf by simp
    with True show ?thesis using "1.IH" [of x y None] by (simp add: x_def y_def)
  next
    case False
    then show ?thesis using "1.prems" unf
      by (auto split: if_splits slot.splits option.splits)
  qed
qed

lemma isValidMove_error: "isValidMove b from to pc back = Inl e \<Longrightarrow> e = TypeError"
  by (auto simp: isValidMove_def hasLineOfSight_def Let_def
      split: option.splits SimplePiece.splits if_splits dest: losWhile_error)

lemma scanSquares_error:
  "scanSquares b from pc squares cands promos = Inl e \<Longrightarrow> e = TypeError"
  by (induction squares arbitrary: cands promos)
     (auto split: slot.splits if_splits sum.splits dest: isValidMove_error)

lemma findValidCapturePosition_error:
  "findValidCapturePosition rnd from pc g = (Inl e, g') \<Longrightarrow> e = TypeError"
  by (auto simp: findValidCapturePosition_def Let_def split_beta
      split: sum.splits if_splits dest: scanSquares_error)

lemma relocate_Inl:
  assumes err: "relocate rnd sel cur cp position promoted g = (Inl e, g')"
    and cur: "boardGet (board g) cur = Cell (Some cp)"
    and pos: "boardGet (board g) position = Cell None"
  shows "pieceCount g' \<le> pieceCount g \<and> e = InvalidPawnPlacement"
proof -
  define mp where "mp = (case promoted of Some pp \<Rightarrow> pp | None \<Rightarrow> cp)"
  have ne: "position \<noteq> cur" using cur pos by auto
  have rc: "inRange (board g) cur" and rp: "inRange (board g) position"
    using cur pos by (simp_all add: boardGet_Cell_iff)
  obtain r1 g1 where a: "removePiece cur g = (r1, g1)" by force
  have r1: "r1 = Inr ()"
    using a removePiece_Inl(2) [of cur g _ g1] rc by (cases r1) auto
  note bs1 = removePiece_Inr(1) [OF a [unfolded r1]]
  have rp1: "inRange (board g1) position" and rc1: "inRange (board g1) cur"
    using boardSet_inRange_eq [OF bs1] rp rc by simp_all
  obtain r2 g2 where b: "placePiece mp position g1 = (r2, g2)" by force
  show ?thesis
  proof (cases r2)
    case (Inl e2)
    then have "g' = g2" and "e = e2"
      using err a r1 b by (simp_all add: relocate_def mp_def)
    then show ?thesis
      using placePiece_Inl(2,7) [OF b [unfolded Inl]] rp1 removePiece_Inr(2) [OF a [unfolded r1]]
      by simp
  next
    case (Inr ida)
    note bs2 = placePiece_Inr(1) [OF b [unfolded Inr]]
    define g3 where "g3 = incrementMoveCount sel (setLocation sel position g2)"
    have core4: "sameCore g3 (snd (getRandomPiece rnd True g3))" by (rule getRandomPiece_sameCore)
    have rc4: "inRange (board (snd (getRandomPiece rnd True g3))) cur"
      using boardSet_inRange_eq [OF bs2] rc1 core4 by (simp add: sameCore_def g3_def)
    obtain r5 g5 where c: "placePiece (fst (getRandomPiece rnd True g3)) cur (snd (getRandomPiece rnd True g3)) = (r5, g5)"
      by force
    obtain e5 where r5: "r5 = Inl e5"
      using err a r1 b Inr c by (cases r5) (simp_all add: relocate_def mp_def g3_def Let_def split_beta)
    have "g' = g5" and "e = e5"
      using err a r1 b Inr c r5 by (simp_all add: relocate_def mp_def g3_def Let_def split_beta)
    then show ?thesis
      using placePiece_Inl(2,7) [OF c [unfolded r5]] rc4 core4
        placePiece_Inr(2) [OF b [unfolded Inr]] removePiece_Inr(2) [OF a [unfolded r1]]
      by (simp add: sameCore_def g3_def)
  qed
qed

lemma placementLoop_facts:
  "placementLoop rnd k g = (res, g') \<Longrightarrow> genInv g \<Longrightarrow>
   (case res of
      Inr u \<Rightarrow> genInv g'
    | Inl e \<Rightarrow> pieceCount g' = pieceCount g \<and> e = InvalidPawnPlacement)"
proof (induction rnd k g rule: placementLoop.induct)
  case (1 rnd k g)
  define newPos where "newPos = fst (randomPosition rnd g)"
  define g1 where "g1 = snd (randomPosition rnd g)"
  have pr: "(newPos, g1) = randomPosition rnd g" by (simp add: newPos_def g1_def)
  have core1: "sameCore g g1" unfolding g1_def by (rule randomPosition_sameCore)
  have inv1: "genInv g1" using sameCore_genInv [OF core1] "1.prems" by simp
  have ob: "onBoard newPos" unfolding newPos_def by (rule randomPosition_onBoard)
  have r1: "inRange (board g1) newPos"
    using inv1 ob by (simp add: genInv_def is8x8_inRange)
  show ?case
  proof (cases "k < 20")
    case False
    then show ?thesis using "1.prems" by (auto simp: placementLoop.simps [of rnd k g])
  next
    case lt: True
    obtain c where cell: "boardGet (board g1) newPos = Cell c"
      using r1 by (auto simp: boardGet_Cell_iff)
    show ?thesis
    proof (cases "c = None")
      case False
      then obtain pc where "c = Some pc" by (cases c) auto
      then have rec: "placementLoop rnd (k + 1) g1 = (res, g')"
        using "1.prems"(1) lt cell
        by (simp add: placementLoop.simps [of rnd k g] newPos_def g1_def split_beta
            isSquareEmpty_def del: One_nat_def)
      have iseF: "isSquareEmpty (board g1) newPos = Inr False"
        using cell False by (simp add: isSquareEmpty_def)
      have nf: "\<not> False" by simp
      have ih: "case res of Inr u \<Rightarrow> genInv g'
          | Inl e \<Rightarrow> pieceCount g' = pieceCount g1 \<and> e = InvalidPawnPlacement"
        by (rule "1.IH" [OF lt refl pr iseF nf rec inv1])
      then show ?thesis
        using core1 by (auto simp: sameCore_def split: sum.splits)
    next
      case True
      define np where "np = fst (getRandomPiece rnd True g1)"
      define g2 where "g2 = snd (getRandomPiece rnd True g1)"
      have core2: "sameCore g1 g2" unfolding g2_def by (rule getRandomPiece_sameCore)
      have np: "np \<noteq> King" unfolding np_def by (rule getRandomPiece_not_King)
      have empty: "boardGet (board g2) newPos = Cell None"
        using cell True core2 by (simp add: sameCore_def)
      have inv2: "genInv g2" using sameCore_genInv [OF core2] inv1 by simp
      obtain r3 g3 where p0: "placePiece np newPos g2 = (r3, g3)" by force
      have unf: "placementLoop rnd k g =
          (case r3 of Inl e \<Rightarrow> (Inl e, g3) | Inr pid \<Rightarrow> (Inr (), setLocation pid newPos g3))"
        using lt cell True p0
        by (cases r3)
           (simp_all add: placementLoop.simps [of rnd k g] newPos_def g1_def np_def g2_def
              split_beta isSquareEmpty_def)
      show ?thesis
      proof (cases r3)
        case (Inl e3)
        then have "res = Inl e3" "g' = g3" using "1.prems"(1) unf by simp_all
        then show ?thesis
          using placePiece_Inl(2,7) [OF p0 [unfolded Inl]] empty core1 core2
          by (simp add: sameCore_def boardGet_Cell_iff)
      next
        case (Inr pid)
        then have res: "res = Inr ()" "g' = setLocation pid newPos g3"
          using "1.prems"(1) unf by simp_all
        have "genInv g3"
          by (rule placePiece_genInv [OF p0 [unfolded Inr] inv2 empty]) (simp add: np)
        then show ?thesis by (simp add: res)
      qed
    qed
  qed
qed

lemma localStep_unfold:
  assumes "length (movablePieces g) \<noteq> 0"
    and "randomElement rnd (movablePieces g) g = ((sel, cur), g1)"
    and "boardGet (board g1) cur = sl" and "sl \<noteq> NoRow"
    and "cp = (case sl of Cell c \<Rightarrow> c | _ \<Rightarrow> None)"
    and "findValidCapturePosition rnd cur cp g1 = (r2, g2)"
  shows "localStep rnd g =
     (case r2 of
        Inl e \<Rightarrow> (Inl e, g2)
      | Inr None \<Rightarrow> (Inr (), g2)
      | Inr (Some (position, promotedPiece)) \<Rightarrow>
          (case cp of
             None \<Rightarrow> (Inl OutsideModel, g2)
           | Some c \<Rightarrow> relocate rnd sel cur c position promotedPiece g2))"
  using assms
  by (cases sl) (auto simp: localStep_def Let_def split: sum.splits option.splits prod.splits)

lemma localStep_NoRow:
  assumes "length (movablePieces g) \<noteq> 0"
    and "randomElement rnd (movablePieces g) g = ((sel, cur), g1)"
    and "boardGet (board g1) cur = NoRow"
  shows "localStep rnd g = (Inl TypeError, g1)"
  using assms by (simp add: localStep_def Let_def)

lemma localStep_facts:
  assumes st: "localStep rnd g = (res, g')" and inv: "genInv g"
  shows "case res of
      Inr u \<Rightarrow> genInv g'
    | Inl e \<Rightarrow> pieceCount g' \<le> pieceCount g \<and> e \<noteq> OutsideModel"
proof (cases "length (movablePieces g) = 0")
  case True
  then have "placementLoop rnd 0 g = (res, g')" using st by (simp add: localStep_def)
  from placementLoop_facts [OF this inv] show ?thesis by (auto split: sum.splits)
next
  case False
  obtain sel cur g1 where re: "randomElement rnd (movablePieces g) g = ((sel, cur), g1)"
    by (metis surj_pair)
  have core1: "sameCore g g1" using randomElement_sameCore [of g rnd "movablePieces g"] re by simp
  have inv1: "genInv g1" using sameCore_genInv [OF core1] inv by simp
  define cp where "cp = (case boardGet (board g1) cur of Cell c \<Rightarrow> c | _ \<Rightarrow> None)"
  obtain r2 g2 where fv: "findValidCapturePosition rnd cur cp g1 = (r2, g2)" by force
  have core2: "sameCore g1 g2" by (rule findValidCapturePosition_sameCore [OF fv])
  have inv2: "genInv g2" using sameCore_genInv [OF core2] inv1 by simp
  show ?thesis
  proof (cases "boardGet (board g1) cur = NoRow")
    case True
    then show ?thesis
      using st localStep_NoRow [OF False re True] core1 by (auto simp: sameCore_def)
  next
    case nr: False
    note unf2 = localStep_unfold [OF False re refl nr cp_def fv]
    show ?thesis
    proof (cases r2)
      case (Inl e2)
      then have "res = Inl e2" "g' = g2" using st unf2 by simp_all
      then show ?thesis
        using findValidCapturePosition_error [OF fv [unfolded Inl]] core1 core2
        by (simp add: sameCore_def)
    next
      case (Inr found)
      show ?thesis
      proof (cases found)
        case None
        then have "res = Inr ()" "g' = g2" using st unf2 Inr by simp_all
        then show ?thesis using inv2 by simp
      next
        case (Some pp)
        obtain position promoted where pp: "pp = (position, promoted)" by (cases pp)
        note fv' = fv [unfolded Inr Some pp]
        obtain c where c: "cp = Some c"
          using findValidCapturePosition_None [of rnd cur g1 r2 g2 pp] fv Inr Some
          by (cases cp) auto
        have cell: "boardGet (board g2) cur = Cell (Some c)"
          using c core2 by (auto simp: cp_def sameCore_def split: slot.splits)
        have empty: "boardGet (board g2) position = Cell None"
          using findValidCapturePosition_Some(1) [OF fv'] core2 by (simp add: sameCore_def)
        have promo: "promoted \<noteq> Some King"
          by (rule findValidCapturePosition_Some(4) [OF fv'])
        have rl: "relocate rnd sel cur c position promoted g2 = (res, g')"
          using st unf2 Inr Some pp c by simp
        show ?thesis
        proof (cases res)
          case (Inl e)
          then show ?thesis
            using relocate_Inl [OF rl [unfolded Inl] cell empty] core1 core2
            by (simp add: sameCore_def)
        next
          case (Inr u)
          then show ?thesis
            using relocate_genInv [OF rl [unfolded Inr] inv2 cell empty promo] by simp
        qed
      qed
    qed
  qed
qed

lemma localLoop_facts:
  "localLoop rnd numPieces k g = (res, g') \<Longrightarrow> genInv g \<Longrightarrow>
   (case res of
      Inr u \<Rightarrow> genInv g'
    | Inl e \<Rightarrow> pieceCount g' < numPieces \<and> e \<noteq> OutsideModel)"
proof (induction rnd numPieces k g rule: localLoop.induct)
  case (1 rnd numPieces k g)
  show ?case
  proof (cases "pieceCount g < numPieces \<and> k < 100")
    case False
    then show ?thesis using "1.prems" by (auto simp: localLoop.simps [of rnd numPieces k g])
  next
    case True
    obtain r1 g1 where st: "localStep rnd g = (r1, g1)" by force
    note f = localStep_facts [OF st "1.prems"(2)]
    show ?thesis
    proof (cases r1)
      case (Inl e)
      then have "res = Inl e" "g' = g1"
        using "1.prems"(1) True st by (simp_all add: localLoop.simps [of rnd numPieces k g])
      then show ?thesis using f Inl True by simp
    next
      case (Inr u)
      then have "localLoop rnd numPieces (k + 1) g1 = (res, g')"
        using "1.prems"(1) True st by (simp add: localLoop.simps [of rnd numPieces k g])
      moreover have "genInv g1" using f Inr by simp
      ultimately show ?thesis
        using "1.IH" [OF True st [symmetric] Inr] by blast
    qed
  qed
qed

subsection \<open>The move-count ledger\<close>

lemma ledgerOk_moveCounts: "moveCounts g' = moveCounts g \<Longrightarrow> ledgerOk g' = ledgerOk g"
  by (simp add: ledgerOk_def)











subsection \<open>One attempt\<close>

lemma resetForAttempt_genInv: "genInv (resetForAttempt g)"
  by (simp add: genInv_def resetForAttempt_def is8x8_emptyBoard countCells_emptyBoard solutionOk_def)


lemma buildAttempt_unfold:
  assumes "randomPosition rnd g = (finalPosition, g1)"
    and "placePiece (finalPiece g1) finalPosition g1 = (r2, g2)"
  shows "buildAttempt rnd numPieces g =
     (if finalPiece g1 = Pawn \<and> (snd finalPosition = 0 \<or> snd finalPosition = 7)
      then (Inl InvalidFinalPiecePlacement, g1)
      else (case r2 of
              Inl e \<Rightarrow> (Inl e, g2)
            | Inr finalPieceId \<Rightarrow>
                localLoop rnd numPieces 0 (setLocation finalPieceId finalPosition g2)))"
  using assms by (cases r2) (auto simp: buildAttempt_def)

lemma buildAttempt_facts:
  assumes ba: "buildAttempt rnd numPieces (resetForAttempt g) = (res, g')"
  shows "case res of
      Inr u \<Rightarrow> genInv g'
    | Inl e \<Rightarrow> e \<noteq> OutsideModel \<and>
        (pieceCount g' < numPieces \<or> (board g' = emptyBoard \<and> solution g' = []))"
proof -
  let ?g0 = "resetForAttempt g"
  obtain finalPosition g1 where rp: "randomPosition rnd ?g0 = (finalPosition, g1)"
    by (metis surj_pair)
  have core1: "sameCore ?g0 g1" using randomPosition_sameCore [of ?g0 rnd] rp by simp
  have ob: "onBoard finalPosition" using randomPosition_onBoard [of rnd ?g0] rp by simp
  have inv1: "genInv g1" using sameCore_genInv [OF core1] resetForAttempt_genInv by simp
  have b1: "board g1 = emptyBoard" and s1: "solution g1 = []"
    using core1 by (simp_all add: sameCore_def resetForAttempt_def)
  have empty: "boardGet (board g1) finalPosition = Cell None"
    using ob b1 by (simp add: boardGet_emptyBoard)
  obtain r2 g2 where pp: "placePiece (finalPiece g1) finalPosition g1 = (r2, g2)" by force
  note unf = buildAttempt_unfold [OF rp pp, of numPieces]
  show ?thesis
  proof (cases "finalPiece g1 = Pawn \<and> (snd finalPosition = 0 \<or> snd finalPosition = 7)")
    case True
    then have "res = Inl InvalidFinalPiecePlacement" "g' = g1" using ba unf by simp_all
    then show ?thesis using b1 s1 by simp
  next
    case False
    show ?thesis
    proof (cases r2)
      case (Inl e)
      then have "res = Inl e" "g' = g2" using ba unf False by simp_all
      then show ?thesis
        using placePiece_Inl(1,3,7) [OF pp [unfolded Inl]] b1 s1 empty
        by (auto simp: boardGet_Cell_iff)
    next
      case (Inr pid)
      have k0: "countCells (\<lambda>c. c = Some King) (board g1) = 0"
        by (simp add: b1 countCells_emptyBoard)
      have inv2: "genInv g2"
        by (rule placePiece_genInv [OF pp [unfolded Inr] inv1 empty]) (simp add: k0)
      have "localLoop rnd numPieces 0 (setLocation pid finalPosition g2) = (res, g')"
        using ba unf False Inr by simp
      from localLoop_facts [OF this] inv2 show ?thesis by (auto split: sum.splits)
    qed
  qed
qed


section \<open>The validator and the outer loop\<close>

subsection \<open>The validator\<close>

lemma executeMove_checked:
  assumes f: "boardGet bc (mv_from m) = Cell (Some (piece m))"
    and t: "boardGet bc (mv_to m) = Cell (Some (captured m))"
  shows "\<exists>b2. executeMove bc m = Inr b2 \<and>
     (\<forall>p. int (countCells p b2) =
          int (countCells p bc) - of_bool (p (Some (captured m))) + of_bool (p None))"
proof -
  have rt: "inRange bc (mv_to m)" and rf: "inRange bc (mv_from m)"
    using f t by (simp_all add: boardGet_Cell_iff)
  obtain b1 where s1: "boardSet bc (mv_to m) (Some (piece m)) = Inr b1"
    using boardSet_inRange [OF rt] by blast
  have f1: "boardGet b1 (mv_from m) = Cell (Some (piece m))"
    using boardSet_get [OF s1, of "mv_from m"] f by simp
  have rf1: "inRange b1 (mv_from m)" using boardSet_inRange_eq [OF s1] rf by simp
  obtain b2 where s2: "boardSet b1 (mv_from m) None = Inr b2"
    using boardSet_inRange [OF rf1] by blast
  have ex: "executeMove bc m = Inr b2" by (simp add: executeMove_def s1 s2)
  have cnt: "int (countCells p b2) =
      int (countCells p bc) - of_bool (p (Some (captured m))) + of_bool (p None)" for p
    using boardSet_count [OF s1 t, of p] boardSet_count [OF s2 f1, of p] by simp
  from ex cnt show ?thesis by blast
qed

lemma executeMove_count:
  assumes f: "boardGet bc (mv_from m) = Cell (Some (piece m))"
    and t: "boardGet bc (mv_to m) = Cell (Some (captured m))"
    and ex: "executeMove bc m = Inr b2"
  shows "int (countCells p b2) =
          int (countCells p bc) - of_bool (p (Some (captured m))) + of_bool (p None)"
  using executeMove_checked [OF f t] ex by auto

lemma validateMoves_Cons:
  assumes "validateMoves b bc counts (m # ms) = Inr (Some bf)"
  obtains b2 where "boardGet bc (mv_from m) = Cell (Some (piece m))"
    and "boardGet bc (mv_to m) = Cell (Some (captured m))"
    and "isValidMove b (mv_from m) (mv_to m) (Some (piece m)) False = Inr True"
    and "moveCountOf counts (pieceId m) < 2"
    and "executeMove bc m = Inr b2"
    and "validateMoves b b2 (counts(pieceId m \<mapsto> moveCountOf counts (pieceId m) + 1)) ms = Inr (Some bf)"
  using assms by (auto simp: Let_def split: if_splits sum.splits)

lemma validateMoves_error: "validateMoves b bc counts ms = Inl e \<Longrightarrow> e = TypeError"
proof (induction ms arbitrary: bc counts)
  case Nil
  then show ?case by simp
next
  case (Cons m ms)
  show ?case
  proof (cases "boardGet bc (mv_from m) = Cell (Some (piece m)) \<and>
      boardGet bc (mv_to m) = Cell (Some (captured m))")
    case True
    then obtain b2 where ex: "executeMove bc m = Inr b2"
      using executeMove_checked [of bc m] by blast
    show ?thesis
      using Cons.prems True ex Cons.IH
      by (auto simp: Let_def split: if_splits sum.splits dest: isValidMove_error)
  next
    case False
    then show ?thesis
      using Cons.prems by (auto simp: Let_def split: if_splits)
  qed
qed

lemma validateMoves_replay:
  "validateMoves b bc counts ms = Inr (Some bf) \<Longrightarrow>
   length (replayBoards bc ms) = length ms \<and> last (bc # replayBoards bc ms) = bf \<and>
   (\<forall>k < length ms. int (countCells (\<lambda>c. c \<noteq> None) (replayBoards bc ms ! k))
       = int (countCells (\<lambda>c. c \<noteq> None) bc) - int (k + 1))"
proof (induction ms arbitrary: bc counts)
  case Nil
  then show ?case by simp
next
  case (Cons m ms)
  from Cons.prems obtain b2 where
    f: "boardGet bc (mv_from m) = Cell (Some (piece m))" and
    t: "boardGet bc (mv_to m) = Cell (Some (captured m))" and
    ex: "executeMove bc m = Inr b2" and
    rec: "validateMoves b b2 (counts(pieceId m \<mapsto> moveCountOf counts (pieceId m) + 1)) ms = Inr (Some bf)"
    by (rule validateMoves_Cons)
  have c2: "int (countCells (\<lambda>c. c \<noteq> None) b2) = int (countCells (\<lambda>c. c \<noteq> None) bc) - 1"
    using executeMove_count [OF f t ex, of "\<lambda>c. c \<noteq> None"] by simp
  note ih = Cons.IH [OF rec]
  have rb: "replayBoards bc (m # ms) = b2 # replayBoards b2 ms" using ex by simp
  have "int (countCells (\<lambda>c. c \<noteq> None) (replayBoards bc (m # ms) ! k))
       = int (countCells (\<lambda>c. c \<noteq> None) bc) - int (k + 1)" if "k < length (m # ms)" for k
  proof (cases k)
    case 0
    then show ?thesis using c2 rb by simp
  next
    case (Suc j)
    then have "j < length ms" using that by simp
    then show ?thesis using ih c2 rb Suc by simp
  qed
  then show ?case using ih rb by simp
qed

lemma validateMoves_kings:
  "validateMoves b bc counts ms = Inr (Some bf) \<Longrightarrow>
   countCells (\<lambda>c. c = Some King) bf \<le> countCells (\<lambda>c. c = Some King) bc \<and>
   (capturesKing bc ms \<longrightarrow> countCells (\<lambda>c. c = Some King) bf < countCells (\<lambda>c. c = Some King) bc)"
proof (induction ms arbitrary: bc counts)
  case Nil
  then show ?case by simp
next
  case (Cons m ms)
  from Cons.prems obtain b2 where
    f: "boardGet bc (mv_from m) = Cell (Some (piece m))" and
    t: "boardGet bc (mv_to m) = Cell (Some (captured m))" and
    ex: "executeMove bc m = Inr b2" and
    rec: "validateMoves b b2 (counts(pieceId m \<mapsto> moveCountOf counts (pieceId m) + 1)) ms = Inr (Some bf)"
    by (rule validateMoves_Cons)
  have k2: "int (countCells (\<lambda>c. c = Some King) b2)
      = int (countCells (\<lambda>c. c = Some King) bc) - of_bool (captured m = King)"
    using executeMove_count [OF f t ex, of "\<lambda>c. c = Some King"] by simp
  note ih = Cons.IH [OF rec]
  show ?case
  proof (cases "captured m = King")
    case True
    then have "countCells (\<lambda>c. c = Some King) b2 < countCells (\<lambda>c. c = Some King) bc"
      using k2 by simp
    then show ?thesis using ih by simp
  next
    case False
    then have "countCells (\<lambda>c. c = Some King) b2 = countCells (\<lambda>c. c = Some King) bc"
      using k2 by simp
    moreover have "capturesKing bc (m # ms) = capturesKing b2 ms"
      using False t ex by simp
    ultimately show ?thesis using ih by simp
  qed
qed

lemma validateMoves_ids:
  "validateMoves b bc counts ms = Inr (Some bf) \<Longrightarrow> \<forall>p. moveCountOf counts p \<le> 2 \<Longrightarrow>
   moveCountOf counts pid + count_list (map pieceId ms) pid \<le> 2"
proof (induction ms arbitrary: bc counts)
  case Nil
  then show ?case by simp
next
  case (Cons m ms)
  from Cons.prems(1) obtain b2 where
    lim: "moveCountOf counts (pieceId m) < 2" and
    rec: "validateMoves b b2 (counts(pieceId m \<mapsto> moveCountOf counts (pieceId m) + 1)) ms = Inr (Some bf)"
    by (rule validateMoves_Cons)
  have ok: "\<forall>p. moveCountOf (counts(pieceId m \<mapsto> moveCountOf counts (pieceId m) + 1)) p \<le> 2"
    using lim Cons.prems(2) by (auto simp: moveCountOf_def)
  from Cons.IH [OF rec ok] show ?case
    by (auto simp: moveCountOf_def split: if_splits)
qed

lemma remainingPieces_count: "length (remainingPieces b) = countCells (\<lambda>c. c \<noteq> None) b"
  by (simp add: remainingPieces_def countCells_def)

lemma hasKing_count: "hasKing b \<longleftrightarrow> 0 < countCells (\<lambda>c. c = Some King) b"
  by (auto simp: hasKing_def countCells_def list_ex_iff filter_empty_conv)

lemma validateSolution_True:
  assumes "validateSolution g = Inr True"
  shows "\<exists>bf. validateMoves (board g) (board g) Map.empty (solution g) = Inr (Some bf)
    \<and> length (remainingPieces bf) = 1
    \<and> (hasKing (board g) \<longrightarrow> remainingPieces bf ! 0 = Some King)"
  using assms
  by (auto simp: validateSolution_def split: sum.splits option.splits if_splits)

lemma validateSolution_error: "validateSolution g = Inl e \<Longrightarrow> e = TypeError"
  by (auto simp: validateSolution_def split: sum.splits option.splits if_splits
      dest: validateMoves_error)

lemma validateSolution_empty:
  "board g = emptyBoard \<Longrightarrow> solution g = [] \<Longrightarrow> validateSolution g = Inr False"
  by (simp add: validateSolution_def remainingPieces_count countCells_emptyBoard)

lemma finishAttempt_Inr:
  assumes "finishAttempt numPieces g = (Inr u, g')"
  shows "pieceCount g = numPieces" and "g' = g\<lparr>solution := rev (solution g)\<rparr>"
    and "validateSolution g' = Inr True"
  using assms by (auto simp: finishAttempt_def Let_def split: if_splits sum.splits)

lemma finishAttempt_Inl:
  assumes "finishAttempt numPieces g = (Inl e, g')"
  shows "e \<noteq> OutsideModel"
    and "pieceCount g' \<noteq> numPieces \<or> validateSolution g' \<noteq> Inr True"
    and "moveCounts g' = moveCounts g"
  using assms
  by (auto simp: finishAttempt_def Let_def split: if_splits sum.splits dest: validateSolution_error)

lemma attempt_unfold:
  assumes "buildAttempt rnd numPieces g = (r1, g1)"
  shows "attempt rnd numPieces g =
     (case r1 of Inl e \<Rightarrow> (Inl e, g1) | Inr u \<Rightarrow> finishAttempt numPieces g1)"
  using assms by (cases r1) (simp_all add: attempt_def)

lemma attempt_Inr:
  assumes at: "attempt rnd numPieces (resetForAttempt g) = (Inr u, g')"
  shows "genInv g'" and "pieceCount g' = numPieces" and "validateSolution g' = Inr True"
proof -
  obtain r1 g1 where ba: "buildAttempt rnd numPieces (resetForAttempt g) = (r1, g1)" by force
  note unf = attempt_unfold [OF ba]
  obtain u1 where r1: "r1 = Inr u1" using at unf by (cases r1) simp_all
  have fa: "finishAttempt numPieces g1 = (Inr u, g')" using at unf r1 by simp
  have inv1: "genInv g1" using buildAttempt_facts [OF ba] r1 by simp
  note f = finishAttempt_Inr [OF fa]
  show "genInv g'" using inv1 by (simp add: f(2) genInv_def solutionOk_def)
  show "pieceCount g' = numPieces" using f(1) by (simp add: f(2))
  show "validateSolution g' = Inr True" by (rule f(3))
qed

lemma attempt_Inl:
  assumes at: "attempt rnd numPieces (resetForAttempt g) = (Inl e, g')"
  shows "e \<noteq> OutsideModel" and "pieceCount g' \<noteq> numPieces \<or> validateSolution g' \<noteq> Inr True"
proof -
  obtain r1 g1 where ba: "buildAttempt rnd numPieces (resetForAttempt g) = (r1, g1)" by force
  note unf = attempt_unfold [OF ba]
  note bf = buildAttempt_facts [OF ba]
  have "e \<noteq> OutsideModel \<and> (pieceCount g' \<noteq> numPieces \<or> validateSolution g' \<noteq> Inr True)"
  proof (cases r1)
    case (Inl e1)
    then have "e = e1" "g' = g1" using at unf by simp_all
    then show ?thesis using bf Inl validateSolution_empty [of g1] by auto
  next
    case (Inr u1)
    then have "finishAttempt numPieces g1 = (Inl e, g')" using at unf by simp
    from finishAttempt_Inl(1,2) [OF this] show ?thesis by simp
  qed
  then show "e \<noteq> OutsideModel"
    and "pieceCount g' \<noteq> numPieces \<or> validateSolution g' \<noteq> Inr True" by simp_all
qed


subsection \<open>generate\<close>

lemma generateLoop_Inr:
  "generateLoop rnd numPieces k g = (Inr u, g') \<Longrightarrow>
   genInv g' \<and> pieceCount g' = numPieces \<and> validateSolution g' = Inr True"
proof (induction rnd numPieces k g rule: generateLoop.induct)
  case (1 rnd numPieces k g)
  show ?case
  proof (cases "k < maxGlobalAttempts")
    case False
    then show ?thesis using "1.prems" by (simp add: generateLoop.simps [of rnd numPieces k g])
  next
    case True
    obtain r1 g1 where at: "attempt rnd numPieces (resetForAttempt g) = (r1, g1)" by force
    show ?thesis
    proof (cases r1)
      case (Inr u1)
      then have "g' = g1"
        using "1.prems" True at by (simp add: generateLoop.simps [of rnd numPieces k g])
      then show ?thesis using attempt_Inr [OF at [unfolded Inr]] by simp
    next
      case (Inl e)
      then have "generateLoop rnd numPieces (k + 1) g1 = (Inr u, g')"
        using "1.prems" True at by (simp add: generateLoop.simps [of rnd numPieces k g])
      then show ?thesis using "1.IH" [OF True at [symmetric] Inl] by simp
    qed
  qed
qed

lemma generateLoop_Inl:
  "generateLoop rnd numPieces k g = (Inl e, g') \<Longrightarrow>
   e = CouldNotGenerate \<and> g' = failedAttempts rnd numPieces (maxGlobalAttempts - k) g \<and>
   (\<forall>j. k + j < maxGlobalAttempts \<longrightarrow>
      (\<exists>e'. fst (attempt rnd numPieces (resetForAttempt (failedAttempts rnd numPieces j g))) = Inl e'
          \<and> e' \<noteq> OutsideModel)) \<and>
   (k < maxGlobalAttempts \<longrightarrow> pieceCount g' \<noteq> numPieces \<or> validateSolution g' \<noteq> Inr True)"
proof (induction rnd numPieces k g rule: generateLoop.induct)
  case (1 rnd numPieces k g)
  show ?case
  proof (cases "k < maxGlobalAttempts")
    case False
    then show ?thesis using "1.prems" by (simp add: generateLoop.simps [of rnd numPieces k g])
  next
    case True
    obtain r1 g1 where at: "attempt rnd numPieces (resetForAttempt g) = (r1, g1)" by force
    show ?thesis
    proof (cases r1)
      case (Inr u1)
      then show ?thesis
        using "1.prems" True at by (simp add: generateLoop.simps [of rnd numPieces k g])
    next
      case (Inl e1)
      then have rec: "generateLoop rnd numPieces (k + 1) g1 = (Inl e, g')"
        using "1.prems" True at by (simp add: generateLoop.simps [of rnd numPieces k g])
      note ih = "1.IH" [OF True at [symmetric] Inl rec]
      note al = attempt_Inl [OF at [unfolded Inl]]
      have sk: "maxGlobalAttempts - k = Suc (maxGlobalAttempts - (k + 1))" using True by simp
      have g1: "g1 = snd (attempt rnd numPieces (resetForAttempt g))" using at by simp
      have st: "g' = failedAttempts rnd numPieces (maxGlobalAttempts - k) g"
        using ih unfolding sk by (simp add: g1)
      have all: "\<exists>e'. fst (attempt rnd numPieces (resetForAttempt (failedAttempts rnd numPieces j g))) = Inl e'
          \<and> e' \<noteq> OutsideModel" if "k + j < maxGlobalAttempts" for j
      proof (cases j)
        case 0
        then show ?thesis using at Inl al(1) by simp
      next
        case (Suc i)
        then have "k + 1 + i < maxGlobalAttempts" using that by simp
        then show ?thesis using ih Suc by (simp add: g1)
      qed
      have fin: "pieceCount g' \<noteq> numPieces \<or> validateSolution g' \<noteq> Inr True"
      proof (cases "k + 1 < maxGlobalAttempts")
        case True
        then show ?thesis using ih by blast
      next
        case False
        then have "g' = g1"
          using rec by (simp add: generateLoop.simps [of rnd numPieces "Suc k" g1])
        then show ?thesis using al(2) by simp
      qed
      from ih st all fin show ?thesis by simp
    qed
  qed
qed

lemma generateLoop_fails:
  "\<forall>j. k + j < maxGlobalAttempts \<longrightarrow>
      (\<exists>e'. fst (attempt rnd numPieces (resetForAttempt (failedAttempts rnd numPieces j g))) = Inl e') \<Longrightarrow>
   \<exists>g'. generateLoop rnd numPieces k g = (Inl CouldNotGenerate, g')"
proof (induction rnd numPieces k g rule: generateLoop.induct)
  case (1 rnd numPieces k g)
  show ?case
  proof (cases "k < maxGlobalAttempts")
    case False
    then show ?thesis by (simp add: generateLoop.simps [of rnd numPieces k g])
  next
    case True
    obtain r1 g1 where at: "attempt rnd numPieces (resetForAttempt g) = (r1, g1)" by force
    have g1: "g1 = snd (attempt rnd numPieces (resetForAttempt g))" using at by simp
    obtain e1 where Inl: "r1 = Inl e1"
      using "1.prems" [rule_format, of 0] True at by auto
    have "\<forall>j. k + 1 + j < maxGlobalAttempts \<longrightarrow>
      (\<exists>e'. fst (attempt rnd numPieces (resetForAttempt (failedAttempts rnd numPieces j g1))) = Inl e')"
    proof (intro allI impI)
      fix j assume "k + 1 + j < maxGlobalAttempts"
      then have "k + Suc j < maxGlobalAttempts" by simp
      from "1.prems" [rule_format, OF this] show "\<exists>e'.
        fst (attempt rnd numPieces (resetForAttempt (failedAttempts rnd numPieces j g1))) = Inl e'"
        by (simp add: g1)
    qed
    from "1.IH" [OF True at [symmetric] Inl this]
    show ?thesis using True at Inl by (simp add: generateLoop.simps [of rnd numPieces k g])
  qed
qed


lemma attempt_inside_model:
  "attempt rnd numPieces (resetForAttempt g) = (Inl e, g') \<Longrightarrow> e \<noteq> OutsideModel"
  by (rule attempt_Inl(1))

section \<open>Runs on fixed random sequences\<close>

lemma upto_8: "[0..7] = [0, 1, 2, 3, 4, 5, 6, 7 :: int]"
  by (simp add: upto_rec1)

lemma boardSquares_eval: "boardSquares = concat (map (\<lambda>y. map (\<lambda>x. (x, y)) [0, 1, 2, 3, 4, 5, 6, 7 :: int]) [0, 1, 2, 3, 4, 5, 6, 7 :: int])"
  by (simp add: boardSquares_def upto_8)

lemma attempt_pawn_fails:
  assumes "finalPiece g = Pawn"
  shows "attempt (\<lambda>i. 0) numPieces (resetForAttempt g)
     = (Inl InvalidFinalPiecePlacement, (resetForAttempt g)\<lparr>rngPos := rngPos g + 4\<rparr>)"
  using assms
  by (simp add: attempt_def buildAttempt_def randomPosition_def getRandomQuadrant_def
      mathRandom_def resetForAttempt_def Let_def)

lemma attempt_queen_fails:
  assumes "finalPiece g = Queen" and "pieceLocations g = [] \<or> pieceLocations g = [(1, (1, 0))]"
  shows "fst (attempt (\<lambda>i. 0) 3 (resetForAttempt g)) = Inl InvalidPawnPlacement
     \<and> finalPiece (snd (attempt (\<lambda>i. 0) 3 (resetForAttempt g))) = Queen
     \<and> pieceLocations (snd (attempt (\<lambda>i. 0) 3 (resetForAttempt g))) = [(1, (1, 0))]
     \<and> solution (snd (attempt (\<lambda>i. 0) 3 (resetForAttempt g))) = []
     \<and> board (snd (attempt (\<lambda>i. 0) 3 (resetForAttempt g))) =
          [None, Some Queen, None, None, None, None, None, None] # replicate 7 (replicate 8 None)"
  using assms
  apply (elim disjE)
   apply (simp_all add: attempt_def buildAttempt_def randomPosition_def getRandomQuadrant_def
      mathRandom_def resetForAttempt_def Let_def placePiece_def generatePieceId_def
      boardSet_def emptyBoard_def setLocation_def localLoop.simps localStep_def
      movablePieces_def hasExceededMoveLimit_def moveCountOf_def randomElement_def
      boardGet_def findValidCapturePosition_def boardSquares_eval isValidMove_def
      hasLineOfSight_def losWhile.simps stepOf_def relocate_def removePiece_def
      incrementMoveCount_def getRandomPiece_def adjustedWeights_def PIECE_WEIGHTS_def
      numeral_eq_Suc)
  done

section \<open>Successful generation\<close>

lemma countPieces_countCells: "countPieces b = countCells (\<lambda>c. c \<noteq> None) b"
  by (simp add: countPieces_def remainingPieces_count)

lemma kingCount_countCells: "kingCount b = countCells (\<lambda>c. c = Some King) b"
  by (simp add: kingCount_def countCells_def)

lemma generate_Inr:
  assumes "generate rnd numPieces g = (Inr u, g')"
  shows "genInv g'" and "pieceCount g' = numPieces" and "validateSolution g' = Inr True"
  using generateLoop_Inr [of rnd numPieces 0 g u g'] assms by (simp_all add: generate_def)

lemma remaining_single:
  assumes "length (remainingPieces bf) = 1"
  shows "\<exists>p. remainingPieces bf = [Some p]"
proof -
  obtain x where x: "remainingPieces bf = [x]"
    using assms by (cases "remainingPieces bf") auto
  then have "x \<in> set (remainingPieces bf)" by simp
  then have "x \<noteq> None" unfolding remainingPieces_def by simp
  then show ?thesis using x by (cases x) auto
qed

text \<open>What a validated state satisfies: the replay of its solution, move by move.\<close>

lemma validated_replay:
  assumes v: "validateSolution g = Inr True"
  shows "length (replayBoards (board g) (solution g)) = length (solution g)"
    and "\<forall>k < length (solution g).
           int (countPieces (replayBoards (board g) (solution g) ! k))
             = int (countPieces (board g)) - int (k + 1)"
    and "\<exists>p. remainingPieces (last (board g # replayBoards (board g) (solution g))) = [Some p]
           \<and> (hasKing (board g) \<longrightarrow> p = King)"
    and "\<forall>pid. count_list (map pieceId (solution g)) pid \<le> 2"
    and "kingCount (board g) \<le> 1 \<Longrightarrow> \<not> capturesKing (board g) (solution g)"
proof -
  from validateSolution_True [OF v] obtain bf where
    vm: "validateMoves (board g) (board g) Map.empty (solution g) = Inr (Some bf)" and
    one: "length (remainingPieces bf) = 1" and
    king: "hasKing (board g) \<longrightarrow> remainingPieces bf ! 0 = Some King"
    by blast
  note rp = validateMoves_replay [OF vm]
  show "length (replayBoards (board g) (solution g)) = length (solution g)" using rp by simp
  show "\<forall>k < length (solution g).
           int (countPieces (replayBoards (board g) (solution g) ! k))
             = int (countPieces (board g)) - int (k + 1)"
    using rp by (simp add: countPieces_countCells)
  have last: "last (board g # replayBoards (board g) (solution g)) = bf" using rp by simp
  obtain p where p: "remainingPieces bf = [Some p]" using remaining_single [OF one] by blast
  show "\<exists>p. remainingPieces (last (board g # replayBoards (board g) (solution g))) = [Some p]
           \<and> (hasKing (board g) \<longrightarrow> p = King)"
    unfolding last using p king by auto
  have "moveCountOf Map.empty pid + count_list (map pieceId (solution g)) pid \<le> 2" for pid
    by (rule validateMoves_ids [OF vm]) (simp add: moveCountOf_def)
  then show "\<forall>pid. count_list (map pieceId (solution g)) pid \<le> 2"
    by (simp add: moveCountOf_def)
  show "\<not> capturesKing (board g) (solution g)" if k1: "kingCount (board g) \<le> 1"
  proof
    assume ck: "capturesKing (board g) (solution g)"
    then have lt: "countCells (\<lambda>c. c = Some King) bf < countCells (\<lambda>c. c = Some King) (board g)"
      using validateMoves_kings [OF vm] by simp
    then have hk: "hasKing (board g)" by (simp add: hasKing_count)
    have z: "countCells (\<lambda>c. c = Some King) bf = 0"
      using lt k1 by (simp add: kingCount_countCells)
    have "Some King \<in> set (remainingPieces bf)" using king hk p by simp
    then have "Some King \<in> set (concat bf)" by (simp add: remainingPieces_def)
    then have "filter (\<lambda>c. c = Some King) (concat bf) \<noteq> []"
      by (auto simp: filter_empty_conv)
    then show False using z by (simp add: countCells_def)
  qed
qed

text \<open>
  C1. When generate returns successfully, the stored board holds exactly numPieces
  pieces; every move of the stored solution can be replayed in order from that board,
  and after move k+1 exactly numPieces - (k+1) pieces are left, so each move removes
  exactly one piece; after the last move exactly one piece is left (the solution has
  numPieces - 1 moves), and it is the King when the stored board has a King.
\<close>

theorem generate_success_replay:
  assumes "generate rnd numPieces g = (Inr u, g')"
  shows "int (countPieces (board g')) = numPieces
    \<and> length (replayBoards (board g') (solution g')) = length (solution g')
    \<and> (\<forall>k < length (solution g').
          int (countPieces (replayBoards (board g') (solution g') ! k)) = numPieces - int (k + 1))
    \<and> (\<exists>p. remainingPieces (last (board g' # replayBoards (board g') (solution g'))) = [Some p]
          \<and> (hasKing (board g') \<longrightarrow> p = King))"
proof -
  note f = generate_Inr [OF assms]
  have n: "int (countPieces (board g')) = numPieces"
    using f(1,2) by (simp add: genInv_def countPieces_countCells)
  from validated_replay(1,2,3) [OF f(3)] n show ?thesis by simp
qed

lemma generate_half_succeeds:
  "fst (generate (\<lambda>i. 1 / 2) 3 (constructor (\<lambda>i. 0) (Some Queen) 0)) = Inr ()"
  by code_simp

theorem generate_success_replay_witness:
  "fst (generate (\<lambda>i. 1 / 2) 3 (constructor (\<lambda>i. 0) (Some Queen) 0)) = Inr ()
   \<and> int (countPieces (board (snd (generate (\<lambda>i. 1 / 2) 3 (constructor (\<lambda>i. 0) (Some Queen) 0))))) = 3
   \<and> length (replayBoards (board (snd (generate (\<lambda>i. 1 / 2) 3 (constructor (\<lambda>i. 0) (Some Queen) 0))))
        (solution (snd (generate (\<lambda>i. 1 / 2) 3 (constructor (\<lambda>i. 0) (Some Queen) 0)))))
      = length (solution (snd (generate (\<lambda>i. 1 / 2) 3 (constructor (\<lambda>i. 0) (Some Queen) 0))))"
proof -
  let ?r = "generate (\<lambda>i. 1 / 2) 3 (constructor (\<lambda>i. 0) (Some Queen) 0)"
  have h: "?r = (Inr (), snd ?r)"
    using generate_half_succeeds by (metis prod.collapse)
  from generate_success_replay [OF h] generate_half_succeeds show ?thesis by simp
qed

section \<open>The length of a returned solution, and requests below the bound\<close>

lemma generate_length:
  assumes "generate rnd numPieces g = (Inr u, g')"
  shows "int (length (solution g')) = numPieces - 1"
proof -
  note f = generate_Inr [OF assms]
  have n: "int (countPieces (board g')) = numPieces"
    using f(1,2) by (simp add: genInv_def countPieces_countCells)
  note v = validated_replay(1,2,3) [OF f(3)]
  let ?bs = "replayBoards (board g') (solution g')"
  from v(3) have one: "countPieces (last (board g' # ?bs)) = 1"
    by (auto simp: countPieces_def)
  show ?thesis
  proof (cases "solution g'")
    case Nil
    then show ?thesis using one n by simp
  next
    case (Cons m ms)
    then have ne: "?bs \<noteq> []" using v(1) by auto
    have "last (board g' # ?bs) = ?bs ! (length (solution g') - 1)"
      using ne v(1) by (simp add: last_conv_nth)
    moreover have "length (solution g') - 1 < length (solution g')" using Cons by simp
    ultimately have "int (countPieces (last (board g' # ?bs)))
        = int (countPieces (board g')) - int (length (solution g') - 1 + 1)"
      using v(2) by simp
    then show ?thesis using one n Cons by simp
  qed
qed

text \<open>
  C3 (as amended). Whenever generate returns successfully, its solution has one move
  less than the requested number of pieces; for a request of 3 it has exactly 2 moves.
  (generate itself checks no bound on the request.)
\<close>

theorem generate_solution_length:
  "(generate rnd numPieces g = (Inr u, g') \<longrightarrow> int (length (solution g')) = numPieces - 1) \<and>
   (generate rnd 3 g = (Inr u, g') \<longrightarrow> length (solution g') = 2)"
  using generate_length [of rnd numPieces g u g'] generate_length [of rnd 3 g u g'] by auto

theorem generate_solution_length_witness:
  "fst (generate (\<lambda>i. 1 / 2) 3 (constructor (\<lambda>i. 0) (Some Queen) 0)) = Inr ()
   \<and> length (solution (snd (generate (\<lambda>i. 1 / 2) 3 (constructor (\<lambda>i. 0) (Some Queen) 0)))) = 2"
proof -
  let ?r = "generate (\<lambda>i. 1 / 2) 3 (constructor (\<lambda>i. 0) (Some Queen) 0)"
  have h: "?r = (Inr (), snd ?r)"
    using generate_half_succeeds by (metis prod.collapse)
  from generate_solution_length [of "\<lambda>i. 1 / 2" 3 "constructor (\<lambda>i. 0) (Some Queen) 0" "()" "snd ?r"]
    h generate_half_succeeds show ?thesis by simp
qed

lemma failedAttempts_pawn:
  "finalPiece g = Pawn \<Longrightarrow> finalPiece (failedAttempts (\<lambda>i. 0) numPieces j g) = Pawn"
proof (induction j arbitrary: g)
  case 0
  then show ?case by simp
next
  case (Suc j)
  have "finalPiece (snd (attempt (\<lambda>i. 0) numPieces (resetForAttempt g))) = Pawn"
    using Suc.prems by (simp add: attempt_pawn_fails) (simp add: resetForAttempt_def)
  from Suc.IH [OF this] show ?case by simp
qed

lemma generate_pawn_fails:
  assumes "finalPiece g = Pawn"
  shows "fst (generate (\<lambda>i. 0) numPieces g) = Inl CouldNotGenerate"
proof -
  have "\<forall>j. 0 + j < maxGlobalAttempts \<longrightarrow>
      (\<exists>e'. fst (attempt (\<lambda>i. 0) numPieces (resetForAttempt (failedAttempts (\<lambda>i. 0) numPieces j g))) = Inl e')"
    using failedAttempts_pawn [OF assms] by (simp add: attempt_pawn_fails)
  from generateLoop_fails [OF this] show ?thesis by (auto simp: generate_def)
qed

text \<open>
  C3 as stated fails: a request for one piece or for two pieces is not rejected but
  searched, and returns successfully (here on the first attempt); and a request for
  three pieces does not succeed on every random sequence.
\<close>

theorem generate_below_bound_not_rejected:
  "fst (generate (\<lambda>i. 1 / 2) 1 (constructor (\<lambda>i. 0) (Some Queen) 0)) = Inr ()
   \<and> fst (generate (\<lambda>i. 1 / 2) 2 (constructor (\<lambda>i. 0) (Some Queen) 0)) = Inr ()
   \<and> fst (generate (\<lambda>i. 0) 3 (constructor (\<lambda>i. 0) (Some Pawn) 0)) = Inl CouldNotGenerate"
proof -
  have a: "fst (generate (\<lambda>i. 1 / 2) 1 (constructor (\<lambda>i. 0) (Some Queen) 0)) = Inr ()"
    by code_simp
  have b: "fst (generate (\<lambda>i. 1 / 2) 2 (constructor (\<lambda>i. 0) (Some Queen) 0)) = Inr ()"
    by code_simp
  have c: "fst (generate (\<lambda>i. 0) 3 (constructor (\<lambda>i. 0) (Some Pawn) 0)) = Inl CouldNotGenerate"
    by (rule generate_pawn_fails) (simp add: constructor_def initialFields_def)
  from a b c show ?thesis by simp
qed

section \<open>The King is never captured\<close>

lemma validate_rejects_king_capture:
  assumes "kingCount (board g) \<le> 1" and "capturesKing (board g) (solution g)"
  shows "validateSolution g \<noteq> Inr True"
  using validated_replay(5) [of g] assms by blast

text \<open>
  C4. The reverse search only ever selects an empty square, so never one that hosts a
  King, and the piece it puts back as the captured one is never a King. Every board on
  which generate calls the validator has at most one King, and on such a board the
  validator accepts no move list whatever in whose replay a move finds a King on its
  destination square. So no move of a returned solution captures a King.
\<close>

theorem king_never_captured:
  "(findValidCapturePosition rnd from pc g = (Inr (Some (position, promoted)), g1) \<longrightarrow>
      boardGet (board g) position = Cell None \<and> boardGet (board g) position \<noteq> Cell (Some King))
   \<and> fst (getRandomPiece rnd True g) \<noteq> King
   \<and> (buildAttempt rnd numPieces (resetForAttempt g) = (Inr u, gv) \<longrightarrow>
        kingCount (board gv) \<le> 1 \<and> list_all (\<lambda>m. captured m \<noteq> King) (solution gv) \<and>
        (\<forall>sol. capturesKing (board gv) sol \<longrightarrow> validateSolution (gv\<lparr>solution := sol\<rparr>) \<noteq> Inr True))
   \<and> (generate rnd numPieces g = (Inr u, g') \<longrightarrow>
        list_all (\<lambda>m. captured m \<noteq> King) (solution g') \<and>
        \<not> capturesKing (board g') (solution g'))"
proof -
  have a: "boardGet (board g) position = Cell None \<and> boardGet (board g) position \<noteq> Cell (Some King)"
    if "findValidCapturePosition rnd from pc g = (Inr (Some (position, promoted)), g1)"
    using findValidCapturePosition_Some(1) [OF that] by simp
  have b: "fst (getRandomPiece rnd True g) \<noteq> King" by (rule getRandomPiece_not_King)
  have c: "kingCount (board gv) \<le> 1 \<and> list_all (\<lambda>m. captured m \<noteq> King) (solution gv) \<and>
        (\<forall>sol. capturesKing (board gv) sol \<longrightarrow> validateSolution (gv\<lparr>solution := sol\<rparr>) \<noteq> Inr True)"
    if ba: "buildAttempt rnd numPieces (resetForAttempt g) = (Inr u, gv)"
  proof -
    have inv: "genInv gv" using buildAttempt_facts [OF ba] by simp
    then have k: "kingCount (board gv) \<le> 1" by (simp add: genInv_def kingCount_countCells)
    have s: "list_all (\<lambda>m. captured m \<noteq> King) (solution gv)"
      using inv by (simp add: genInv_def solutionOk_def list_all_iff)
    have v: "validateSolution (gv\<lparr>solution := sol\<rparr>) \<noteq> Inr True" if "capturesKing (board gv) sol" for sol
      using validate_rejects_king_capture [of "gv\<lparr>solution := sol\<rparr>"] k that by simp
    from k s v show ?thesis by blast
  qed
  have d: "list_all (\<lambda>m. captured m \<noteq> King) (solution g') \<and> \<not> capturesKing (board g') (solution g')"
    if ge: "generate rnd numPieces g = (Inr u, g')"
  proof -
    note f = generate_Inr [OF ge]
    have k: "kingCount (board g') \<le> 1" using f(1) by (simp add: genInv_def kingCount_countCells)
    have s: "list_all (\<lambda>m. captured m \<noteq> King) (solution g')"
      using f(1) by (simp add: genInv_def solutionOk_def list_all_iff)
    from s validated_replay(5) [OF f(3) k] show ?thesis by simp
  qed
  from a b c d show ?thesis by blast
qed

lemma generate_king_succeeds:
  "fst (generate (\<lambda>i. 1 / 2) 3 (constructor (\<lambda>i. 0) (Some King) 0)) = Inr ()"
  by code_simp

theorem king_never_captured_witness:
  "fst (generate (\<lambda>i. 1 / 2) 3 (constructor (\<lambda>i. 0) (Some King) 0)) = Inr ()
   \<and> getFEN (snd (generate (\<lambda>i. 1 / 2) 3 (constructor (\<lambda>i. 0) (Some King) 0))) = ''8/8/8/8/4BK2/2N5/8/8''
   \<and> \<not> capturesKing (board (snd (generate (\<lambda>i. 1 / 2) 3 (constructor (\<lambda>i. 0) (Some King) 0))))
          (solution (snd (generate (\<lambda>i. 1 / 2) 3 (constructor (\<lambda>i. 0) (Some King) 0))))"
proof -
  let ?r = "generate (\<lambda>i. 1 / 2) 3 (constructor (\<lambda>i. 0) (Some King) 0)"
  have h: "?r = (Inr (), snd ?r)"
    using generate_king_succeeds by (metis prod.collapse)
  have fen: "getFEN (snd ?r) = ''8/8/8/8/4BK2/2N5/8/8''" by code_simp
  from king_never_captured [where rnd = "\<lambda>i. 1 / 2" and numPieces = 3
      and g = "constructor (\<lambda>i. 0) (Some King) 0" and u = "()" and g' = "snd ?r"]
    h generate_king_succeeds fen show ?thesis by simp
qed

section \<open>The move-count ledger and the two-move limit\<close>








section \<open>Errors of generate\<close>

lemma generate_Inl:
  assumes "generate rnd numPieces g = (Inl e, g')"
  shows "e = CouldNotGenerate"
    and "g' = failedAttempts rnd numPieces maxGlobalAttempts g"
    and "pieceCount g' \<noteq> numPieces \<or> validateSolution g' \<noteq> Inr True"
    and "\<forall>k < maxGlobalAttempts.
           \<exists>e'. fst (attempt rnd numPieces (resetForAttempt (failedAttempts rnd numPieces k g))) = Inl e'"
  using generateLoop_Inl [of rnd numPieces 0 g e g'] assms
  by (auto simp: generate_def maxGlobalAttempts_def)

text \<open>
  C9 (as amended). generate raises an error exactly when all of the 10000 rounds of its
  outer loop fail, and the error is then the exhaustion error: whatever an attempt
  throws, a placement error included, leads to the next round. A failed generate
  clears nothing: the state it leaves is the one the last failed attempt left. That
  state is not a validated puzzle of the requested size: its piece count differs from
  the request or validateSolution does not accept it.
\<close>

theorem generate_error_only_when_exhausted:
  "(generate rnd numPieces g = (Inl e, g') \<longrightarrow>
      e = CouldNotGenerate \<and> g' = failedAttempts rnd numPieces maxGlobalAttempts g \<and>
      (pieceCount g' \<noteq> numPieces \<or> validateSolution g' \<noteq> Inr True))
   \<and> ((\<exists>e'. fst (generate rnd numPieces g) = Inl e') \<longleftrightarrow>
        (\<forall>k < maxGlobalAttempts.
           \<exists>e'. fst (attempt rnd numPieces (resetForAttempt (failedAttempts rnd numPieces k g))) = Inl e'))"
proof -
  have a: "e = CouldNotGenerate \<and> g' = failedAttempts rnd numPieces maxGlobalAttempts g \<and>
      (pieceCount g' \<noteq> numPieces \<or> validateSolution g' \<noteq> Inr True)"
    if "generate rnd numPieces g = (Inl e, g')"
    using generate_Inl(1,2,3) [OF that] by simp
  have b: "\<forall>k < maxGlobalAttempts.
           \<exists>e'. fst (attempt rnd numPieces (resetForAttempt (failedAttempts rnd numPieces k g))) = Inl e'"
    if "fst (generate rnd numPieces g) = Inl e'" for e'
  proof -
    have "generate rnd numPieces g = (Inl e', snd (generate rnd numPieces g))"
      using that by (metis prod.collapse)
    from generate_Inl(4) [OF this] show ?thesis .
  qed
  have c: "\<exists>e'. fst (generate rnd numPieces g) = Inl e'"
    if "\<forall>k < maxGlobalAttempts.
           \<exists>e'. fst (attempt rnd numPieces (resetForAttempt (failedAttempts rnd numPieces k g))) = Inl e'"
  proof -
    from that have "\<forall>j. 0 + j < maxGlobalAttempts \<longrightarrow>
      (\<exists>e'. fst (attempt rnd numPieces (resetForAttempt (failedAttempts rnd numPieces j g))) = Inl e')"
      by simp
    from generateLoop_fails [OF this] show ?thesis by (auto simp: generate_def)
  qed
  from a b c show ?thesis by blast
qed

theorem generate_error_only_when_exhausted_witness:
  "fst (attempt (\<lambda>i. 0) 3 (resetForAttempt (constructor (\<lambda>i. 0) (Some Pawn) 0))) = Inl InvalidFinalPiecePlacement
   \<and> fst (generate (\<lambda>i. 0) 3 (constructor (\<lambda>i. 0) (Some Pawn) 0)) = Inl CouldNotGenerate
   \<and> snd (generate (\<lambda>i. 0) 3 (constructor (\<lambda>i. 0) (Some Pawn) 0))
       = failedAttempts (\<lambda>i. 0) 3 maxGlobalAttempts (constructor (\<lambda>i. 0) (Some Pawn) 0)"
proof -
  let ?g = "constructor (\<lambda>i. 0) (Some Pawn) 0"
  have fp: "finalPiece ?g = Pawn" by (simp add: constructor_def initialFields_def)
  have a: "fst (attempt (\<lambda>i. 0) 3 (resetForAttempt ?g)) = Inl InvalidFinalPiecePlacement"
    by (simp add: attempt_pawn_fails [OF fp])
  have b: "fst (generate (\<lambda>i. 0) 3 ?g) = Inl CouldNotGenerate"
    by (rule generate_pawn_fails [OF fp])
  then have h: "generate (\<lambda>i. 0) 3 ?g = (Inl CouldNotGenerate, snd (generate (\<lambda>i. 0) 3 ?g))"
    by (metis prod.collapse)
  from generate_error_only_when_exhausted [where rnd = "\<lambda>i. 0" and numPieces = 3 and g = ?g
      and e = CouldNotGenerate and g' = "snd (generate (\<lambda>i. 0) 3 ?g)"] h a b
  show ?thesis by simp
qed

lemma failedAttempts_Suc:
  "failedAttempts rnd numPieces (Suc k) g
     = snd (attempt rnd numPieces (resetForAttempt (failedAttempts rnd numPieces k g)))"
  by (induction k arbitrary: g) simp_all

lemma failedAttempts_queen:
  assumes "finalPiece g = Queen" and "pieceLocations g = [] \<or> pieceLocations g = [(1, (1, 0))]"
  shows "finalPiece (failedAttempts (\<lambda>i. 0) 3 k g) = Queen \<and>
    (pieceLocations (failedAttempts (\<lambda>i. 0) 3 k g) = [] \<or>
     pieceLocations (failedAttempts (\<lambda>i. 0) 3 k g) = [(1, (1, 0))])"
  using assms
proof (induction k arbitrary: g)
  case 0
  then show ?case by simp
next
  case (Suc k)
  note q = attempt_queen_fails [OF Suc.prems]
  show ?case using Suc.IH [of "snd (attempt (\<lambda>i. 0) 3 (resetForAttempt g))"] q by simp
qed

text \<open>
  C9 as stated fails in its last part: with every draw 0 and the Queen as final piece,
  generate(3) fails after its 10000 attempts and leaves the board of the last attempt
  in place, a lone Queen on b8 with an empty solution; getFEN still renders it, and
  validateSolution even accepts it.
\<close>

theorem generate_failure_keeps_board:
  "fst (generate (\<lambda>i. 0) 3 (constructor (\<lambda>i. 0) (Some Queen) 0)) = Inl CouldNotGenerate
   \<and> getFEN (snd (generate (\<lambda>i. 0) 3 (constructor (\<lambda>i. 0) (Some Queen) 0))) = ''1Q6/8/8/8/8/8/8/8''
   \<and> solution (snd (generate (\<lambda>i. 0) 3 (constructor (\<lambda>i. 0) (Some Queen) 0))) = []
   \<and> validateSolution (snd (generate (\<lambda>i. 0) 3 (constructor (\<lambda>i. 0) (Some Queen) 0))) = Inr True"
proof -
  let ?g = "constructor (\<lambda>i. 0) (Some Queen) 0"
  let ?r = "generate (\<lambda>i. 0) 3 ?g"
  have g0: "finalPiece ?g = Queen" "pieceLocations ?g = [] \<or> pieceLocations ?g = [(1, (1, 0))]"
    by (simp_all add: constructor_def initialFields_def)
  note fq = failedAttempts_queen [OF g0]
  have "\<forall>j. 0 + j < maxGlobalAttempts \<longrightarrow>
      (\<exists>e'. fst (attempt (\<lambda>i. 0) 3 (resetForAttempt (failedAttempts (\<lambda>i. 0) 3 j ?g))) = Inl e')"
    using attempt_queen_fails fq by blast
  from generateLoop_fails [OF this] have a: "fst ?r = Inl CouldNotGenerate"
    by (auto simp: generate_def)
  then have h: "?r = (Inl CouldNotGenerate, snd ?r)" by (metis prod.collapse)
  have m: "maxGlobalAttempts = Suc 9999" by (simp add: maxGlobalAttempts_def)
  have st: "snd ?r = snd (attempt (\<lambda>i. 0) 3 (resetForAttempt (failedAttempts (\<lambda>i. 0) 3 9999 ?g)))"
    using generate_Inl(2) [OF h] unfolding m failedAttempts_Suc .
  have last: "solution (snd ?r) = []
     \<and> board (snd ?r) = [None, Some Queen, None, None, None, None, None, None] # replicate 7 (replicate 8 None)"
    using attempt_queen_fails [of "failedAttempts (\<lambda>i. 0) 3 9999 ?g"] fq [of 9999] st by simp
  define s where "s = (initialFields Queen 0)\<lparr>board :=
      [None, Some Queen, None, None, None, None, None, None] # replicate 7 (replicate 8 None)\<rparr>"
  have fen: "getFEN (snd ?r) = getFEN s" using last by (simp add: getFEN_def s_def)
  have val: "validateSolution (snd ?r) = validateSolution s"
    using last by (simp add: validateSolution_def s_def initialFields_def)
  have fs: "getFEN s = ''1Q6/8/8/8/8/8/8/8''" unfolding s_def by code_simp
  have vs: "validateSolution s = Inr True" unfolding s_def by code_simp
  from a last fen val fs vs show ?thesis by simp
qed

section \<open>The line of sight\<close>

lemma invokes_isValidMove:
  "isValidMove b from to pc back =
     (if invokesLineOfSight from to pc then hasLineOfSight b from to
      else (case pc of
              Some Pawn \<Rightarrow> Inr (\<bar>fst from - fst to\<bar> = 1 \<and> snd to - snd from = (if back then 1 else - 1))
            | Some Knight \<Rightarrow>
                Inr ((\<bar>fst from - fst to\<bar> = 2 \<and> \<bar>snd to - snd from\<bar> = 1) \<or>
                     (\<bar>fst from - fst to\<bar> = 1 \<and> \<bar>snd to - snd from\<bar> = 2))
            | Some King \<Rightarrow> Inr (\<bar>fst from - fst to\<bar> \<le> 1 \<and> \<bar>snd to - snd from\<bar> \<le> 1)
            | _ \<Rightarrow> Inr False))"
  by (auto simp: isValidMove_def invokesLineOfSight_def Let_def
      split: option.splits SimplePiece.splits)

lemma invokes_aligned: "invokesLineOfSight from to pc \<Longrightarrow> aligned from to"
  by (auto simp: invokesLineOfSight_def aligned_def Let_def split: option.splits SimplePiece.splits)

text \<open>The geometry of two distinct aligned squares of the board.\<close>

lemma losPre_geometry:
  assumes pre: "losPre from to"
  defines "n \<equiv> max \<bar>fst to - fst from\<bar> \<bar>snd to - snd from\<bar>"
    and "sx \<equiv> stepOf (fst to - fst from)" and "sy \<equiv> stepOf (snd to - snd from)"
  shows "1 \<le> n" and "n \<le> 7"
    and "\<And>k. 0 \<le> k \<Longrightarrow> k \<le> n \<Longrightarrow> onBoard (fst from + k * sx, snd from + k * sy)"
    and "\<And>k. (fst from + k * sx = fst to \<and> snd from + k * sy = snd to) \<longleftrightarrow> k = n"
proof -
  obtain fx fy tx ty where f: "from = (fx, fy)" and t: "to = (tx, ty)"
    by (cases "from"; cases to) auto
  have ob: "0 \<le> fx" "fx < 8" "0 \<le> fy" "fy < 8" "0 \<le> tx" "tx < 8" "0 \<le> ty" "ty < 8"
    using pre by (simp_all add: losPre_def onBoard_def f t)
  have ne: "fx \<noteq> tx \<or> fy \<noteq> ty" using pre by (simp add: losPre_def f t)
  have al: "fx = tx \<or> fy = ty \<or> \<bar>tx - fx\<bar> = \<bar>ty - fy\<bar>"
    using pre by (simp add: losPre_def aligned_def f t)
  show "1 \<le> n" using ne by (auto simp: n_def f t)
  show "n \<le> 7" using ob by (auto simp: n_def f t)
  show "onBoard (fst from + k * sx, snd from + k * sy)" if "0 \<le> k" "k \<le> n" for k
    using that ob al ne
    by (auto simp: n_def sx_def sy_def f t stepOf_sgn onBoard_def split: if_splits)
  show "(fst from + k * sx = fst to \<and> snd from + k * sy = snd to) \<longleftrightarrow> k = n" for k
    using ob al ne
    by (auto simp: n_def sx_def sy_def f t stepOf_sgn split: if_splits)
qed


lemma is8x8_Cell: "is8x8 b \<Longrightarrow> onBoard pos \<Longrightarrow> \<exists>c. boardGet b pos = Cell c"
  by (simp add: boardGet_Cell_iff is8x8_inRange)

lemma is8x8_Cell_onBoard: "is8x8 b \<Longrightarrow> boardGet b pos = Cell c \<Longrightarrow> onBoard pos"
  by (simp add: boardGet_Cell_iff is8x8_inRange)

text \<open>
  The run of the loop from its k-th round on, between two distinct aligned squares of an
  8x8 board that are n steps apart.
\<close>

lemma losWhile_run:
  assumes b: "is8x8 b" and pre: "losPre from to"
  defines "n \<equiv> max \<bar>fst to - fst from\<bar> \<bar>snd to - snd from\<bar>"
    and "pos \<equiv> \<lambda>k. (fst from + k * stepOf (fst to - fst from),
                     snd from + k * stepOf (snd to - snd from))"
  assumes k: "0 \<le> k" "k \<le> n" and m: "m = nat (n - k)"
  shows "losWhile b from to k = Inr (\<forall>j. k \<le> j \<and> j < n \<longrightarrow> boardGet b (pos j) = Cell None) \<and>
         int (length (losInspected b from to k)) \<le> n - k \<and>
         (\<forall>c \<in> set (losInspected b from to k). \<exists>j. k \<le> j \<and> j < n \<and> c = pos j)"
  using k m
proof (induction m arbitrary: k)
  case 0
  then have kn: "k = n" by simp
  have at: "fst from + k * stepOf (fst to - fst from) = fst to \<and>
            snd from + k * stepOf (snd to - snd from) = snd to"
    using losPre_geometry(4) [OF pre, of k] kn by (simp add: n_def)
  have "losWhile b from to k = Inr True"
    by (subst losWhile.simps) (simp add: at Let_def)
  moreover have "losInspected b from to k = []"
    by (subst losInspected.simps) (simp add: at Let_def)
  ultimately show ?case using kn by auto
next
  case (Suc m)
  then have kn: "k < n" and m': "m = nat (n - (k + 1))" and k1: "0 \<le> k + 1" "k + 1 \<le> n"
    by simp_all
  have notat: "fst from + k * stepOf (fst to - fst from) \<noteq> fst to \<or>
               snd from + k * stepOf (snd to - snd from) \<noteq> snd to"
    using losPre_geometry(4) [OF pre, of k] kn by (simp add: n_def)
  have "onBoard (pos k)"
    using losPre_geometry(3) [OF pre, of k] Suc.prems kn by (simp add: n_def pos_def)
  then obtain c where c: "boardGet b (pos k) = Cell c" using is8x8_Cell [OF b] by blast
  have unW: "losWhile b from to k =
      (case c of Some pc \<Rightarrow> Inr False | None \<Rightarrow> losWhile b from to (k + 1))"
    using notat c by (subst losWhile.simps) (auto simp: Let_def pos_def split: option.splits)
  have unI: "losInspected b from to k =
      (case c of Some pc \<Rightarrow> [pos k] | None \<Rightarrow> pos k # losInspected b from to (k + 1))"
    using notat c by (subst losInspected.simps) (auto simp: Let_def pos_def split: option.splits)
  show ?case
  proof (cases c)
    case (Some pc)
    have "\<not> (\<forall>j. k \<le> j \<and> j < n \<longrightarrow> boardGet b (pos j) = Cell None)"
      using c Some kn by (auto intro: exI [of _ k])
    then show ?thesis using unW unI Some kn by (auto intro: exI [of _ k])
  next
    case None
    note ih = Suc.IH [OF k1 m']
    have eq: "(\<forall>j. k \<le> j \<and> j < n \<longrightarrow> boardGet b (pos j) = Cell None) \<longleftrightarrow>
              (\<forall>j. k + 1 \<le> j \<and> j < n \<longrightarrow> boardGet b (pos j) = Cell None)"
    proof
      assume "\<forall>j. k \<le> j \<and> j < n \<longrightarrow> boardGet b (pos j) = Cell None"
      then show "\<forall>j. k + 1 \<le> j \<and> j < n \<longrightarrow> boardGet b (pos j) = Cell None" by simp
    next
      assume a: "\<forall>j. k + 1 \<le> j \<and> j < n \<longrightarrow> boardGet b (pos j) = Cell None"
      show "\<forall>j. k \<le> j \<and> j < n \<longrightarrow> boardGet b (pos j) = Cell None"
      proof (intro allI impI)
        fix j assume j: "k \<le> j \<and> j < n"
        show "boardGet b (pos j) = Cell None"
        proof (cases "j = k")
          case True
          then show ?thesis using c None by simp
        next
          case False
          then have "k + 1 \<le> j \<and> j < n" using j by simp
          then show ?thesis using a by blast
        qed
      qed
    qed
    have w: "losWhile b from to k = Inr (\<forall>j. k \<le> j \<and> j < n \<longrightarrow> boardGet b (pos j) = Cell None)"
      using unW None ih eq by simp
    have l: "int (length (losInspected b from to k)) \<le> n - k"
      using unI None ih by simp
    have s: "\<forall>c \<in> set (losInspected b from to k). \<exists>j. k \<le> j \<and> j < n \<and> c = pos j"
    proof
      fix c' assume "c' \<in> set (losInspected b from to k)"
      then have "c' = pos k \<or> c' \<in> set (losInspected b from to (k + 1))"
        using unI None by simp
      then show "\<exists>j. k \<le> j \<and> j < n \<and> c' = pos j"
      proof
        assume "c' = pos k"
        then show ?thesis using kn by (auto intro: exI [of _ k])
      next
        assume "c' \<in> set (losInspected b from to (k + 1))"
        then obtain j where "k + 1 \<le> j \<and> j < n \<and> c' = pos j" using ih by blast
        then show ?thesis by (auto intro: exI [of _ j])
      qed
    qed
    from w l s show ?thesis by simp
  qed
qed

lemma squaresBetween_set:
  "set (squaresBetween from to) =
     {c. \<exists>j. 1 \<le> j \<and> j < max \<bar>fst to - fst from\<bar> \<bar>snd to - snd from\<bar> \<and>
         c = (fst from + j * stepOf (fst to - fst from), snd from + j * stepOf (snd to - snd from))}"
  by (auto simp: squaresBetween_def)

text \<open>hasLineOfSight under its precondition.\<close>

lemma hasLineOfSight_run:
  assumes b: "is8x8 b" and pre: "losPre from to"
  shows "hasLineOfSight b from to = Inr (\<forall>c \<in> set (squaresBetween from to). boardGet b c = Cell None)"
    and "length (losInspected b from to 1) \<le> 6"
    and "set (losInspected b from to 1) \<subseteq> set (squaresBetween from to)"
    and "\<forall>c \<in> set (squaresBetween from to). onBoard c"
proof -
  let ?n = "max \<bar>fst to - fst from\<bar> \<bar>snd to - snd from\<bar>"
  let ?pos = "\<lambda>k. (fst from + k * stepOf (fst to - fst from),
                   snd from + k * stepOf (snd to - snd from))"
  have n1: "1 \<le> ?n" and n7: "?n \<le> 7" using losPre_geometry(1,2) [OF pre] by simp_all
  have run: "losWhile b from to 1 = Inr (\<forall>j. 1 \<le> j \<and> j < ?n \<longrightarrow> boardGet b (?pos j) = Cell None) \<and>
         int (length (losInspected b from to 1)) \<le> ?n - 1 \<and>
         (\<forall>c \<in> set (losInspected b from to 1). \<exists>j. 1 \<le> j \<and> j < ?n \<and> c = ?pos j)"
    using losWhile_run [OF b pre _ n1 refl] by simp
  have "(\<forall>j. 1 \<le> j \<and> j < ?n \<longrightarrow> boardGet b (?pos j) = Cell None) \<longleftrightarrow>
        (\<forall>c \<in> set (squaresBetween from to). boardGet b c = Cell None)"
    unfolding squaresBetween_set by blast
  then show "hasLineOfSight b from to = Inr (\<forall>c \<in> set (squaresBetween from to). boardGet b c = Cell None)"
    using run by (simp add: hasLineOfSight_def)
  show "length (losInspected b from to 1) \<le> 6" using run n7 by linarith
  show "set (losInspected b from to 1) \<subseteq> set (squaresBetween from to)"
    unfolding squaresBetween_set using run by blast
  show "\<forall>c \<in> set (squaresBetween from to). onBoard c"
    unfolding squaresBetween_set using losPre_geometry(3) [OF pre] by auto
qed


subsection \<open>The call sites\<close>

lemma scanLosCalls_pre:
  assumes b: "is8x8 b" and pc: "pc = None \<or> boardGet b from = Cell pc"
  shows "\<forall>c \<in> set (scanLosCalls b from pc squares). losPre (fst c) (snd c)"
proof (induction squares)
  case Nil
  show ?case by simp
next
  case (Cons to rest)
  have here: "\<forall>c \<in> set (losCalls from to pc). losPre (fst c) (snd c)"
    if e: "boardGet b to = Cell None"
  proof (cases "invokesLineOfSight from to pc")
    case False
    then show ?thesis by (simp add: losCalls_def)
  next
    case True
    then obtain p where p: "pc = Some p"
      by (cases pc) (simp_all add: invokesLineOfSight_def)
    then have f: "boardGet b from = Cell (Some p)" using pc by simp
    have "from \<noteq> to" using f e by auto
    moreover have "onBoard from" "onBoard to"
      using is8x8_Cell_onBoard [OF b f] is8x8_Cell_onBoard [OF b e] by simp_all
    ultimately show ?thesis
      using invokes_aligned [OF True] True by (simp add: losCalls_def losPre_def)
  qed
  show ?case
  proof (cases "boardGet b to")
    case NoRow
    then show ?thesis by simp
  next
    case Undefined
    then show ?thesis using Cons.IH by simp
  next
    case (Cell c)
    show ?thesis
    proof (cases "c = None")
      case True
      then have e: "boardGet b to = Cell None" using Cell by simp
      show ?thesis
        using here [OF e] Cons.IH e
        by (cases "isValidMove b from to pc True") auto
    next
      case False
      then show ?thesis using Cell Cons.IH by auto
    qed
  qed
qed

lemma validateLosCalls_pre:
  "solutionOk ms \<Longrightarrow> \<forall>c \<in> set (validateLosCalls b bc counts ms). losPre (fst c) (snd c)"
proof (induction ms arbitrary: bc counts)
  case Nil
  show ?case by simp
next
  case (Cons m ms)
  from Cons.prems have m: "mv_from m \<noteq> mv_to m" "onBoard (mv_from m)" "onBoard (mv_to m)"
    and rest: "solutionOk ms"
    by (simp_all add: solutionOk_def)
  have here: "\<forall>c \<in> set (losCalls (mv_from m) (mv_to m) (Some (piece m))). losPre (fst c) (snd c)"
    using m invokes_aligned [of "mv_from m" "mv_to m" "Some (piece m)"]
    by (simp add: losCalls_def losPre_def)
  have ih: "c \<in> set (validateLosCalls b bc' counts' ms) \<Longrightarrow> losPre (fst c) (snd c)"
    for c bc' counts'
    using Cons.IH [OF rest] by blast
  show ?case
  proof (cases "boardGet bc (mv_from m) \<noteq> Cell (Some (piece m)) \<or>
                boardGet bc (mv_to m) \<noteq> Cell (Some (captured m))")
    case True
    then show ?thesis by auto
  next
    case False
    show ?thesis
    proof (cases "isValidMove b (mv_from m) (mv_to m) (Some (piece m)) False")
      case (Inl e)
      then show ?thesis using False here by simp
    next
      case (Inr valid)
      show ?thesis
      proof (cases "executeMove bc m")
        case (Inl e)
        then show ?thesis using False here Inr by simp
      next
        case (Inr b2)
        then show ?thesis
          using False here \<open>isValidMove b (mv_from m) (mv_to m) (Some (piece m)) False = Inr valid\<close>
          by (auto dest: ih)
      qed
    qed
  qed
qed

lemma searchStateAt_genInv: "searchStateAt rnd numPieces g0 k = Some g \<Longrightarrow> genInv g"
proof (induction k arbitrary: g)
  case 0
  let ?g0 = "resetForAttempt g0"
  obtain finalPosition g1 where rp: "randomPosition rnd ?g0 = (finalPosition, g1)"
    by (metis surj_pair)
  have core1: "sameCore ?g0 g1" using randomPosition_sameCore [of ?g0 rnd] rp by simp
  have ob: "onBoard finalPosition" using randomPosition_onBoard [of rnd ?g0] rp by simp
  have inv1: "genInv g1" using sameCore_genInv [OF core1] resetForAttempt_genInv by simp
  have b1: "board g1 = emptyBoard"
    using core1 by (simp add: sameCore_def resetForAttempt_def)
  have empty: "boardGet (board g1) finalPosition = Cell None"
    using ob b1 by (simp add: boardGet_emptyBoard)
  have k0: "countCells (\<lambda>c. c = Some King) (board g1) = 0"
    by (simp add: b1 countCells_emptyBoard)
  obtain r2 g2 where pp: "placePiece (finalPiece g1) finalPosition g1 = (r2, g2)" by force
  from "0.prems" obtain pid where r2: "r2 = Inr pid" and g: "g = setLocation pid finalPosition g2"
    using rp pp by (cases r2) (auto split: if_splits)
  have "genInv g2"
    by (rule placePiece_genInv [OF pp [unfolded r2] inv1 empty]) (simp add: k0)
  then show ?case by (simp add: g setLocation_def genInv_def)
next
  case (Suc k)
  from Suc.prems obtain g' where at: "searchStateAt rnd numPieces g0 k = Some g'"
    by (cases "searchStateAt rnd numPieces g0 k") auto
  obtain r g1 where st: "localStep rnd g' = (r, g1)" by force
  from Suc.prems at st obtain u where "r = Inr u" and "g = g1"
    by (cases r) (auto split: if_splits)
  then show ?case using localStep_facts [OF st Suc.IH [OF at]] by simp
qed

lemma searchLosCalls_pre:
  assumes "is8x8 (board g)"
  shows "\<forall>c \<in> set (searchLosCalls rnd g). losPre (fst c) (snd c)"
proof (cases "length (movablePieces g) = 0")
  case True
  then show ?thesis by (simp add: searchLosCalls_def)
next
  case False
  obtain sel cur g1 where re: "randomElement rnd (movablePieces g) g = ((sel, cur), g1)"
    by (metis surj_pair)
  have b1: "board g1 = board g"
    using randomElement_sameCore [of g rnd "movablePieces g"] re by (simp add: sameCore_def)
  show ?thesis
  proof (cases "boardGet (board g) cur")
    case NoRow
    then show ?thesis using False re b1 by (simp add: searchLosCalls_def)
  next
    case Undefined
    then show ?thesis
      using False re b1 scanLosCalls_pre [OF assms, of None cur boardSquares]
      by (simp add: searchLosCalls_def)
  next
    case (Cell c)
    then show ?thesis
      using False re b1 scanLosCalls_pre [OF assms, of c cur boardSquares]
      by (simp add: searchLosCalls_def)
  qed
qed

text \<open>
  C10. Within generate, hasLineOfSight is called by isValidMove only, from the search
  (findValidCapturePosition, in a round of the inner loop) and from validateSolution.
  Every such call is on two distinct squares of the board that lie on one rank, file or
  diagonal, and the board it reads is 8x8. On such squares the loop tests its condition
  at most 7 times, reads only cells of the board, and returns true exactly when every
  square strictly between the two is empty.
\<close>

theorem hasLineOfSight_contract:
  "(searchStateAt rnd numPieces g0 k = Some g \<longrightarrow>
      is8x8 (board g) \<and> (\<forall>c \<in> set (searchLosCalls rnd g). losPre (fst c) (snd c))) \<and>
   (buildAttempt rnd numPieces (resetForAttempt g0) = (Inr u, gv) \<longrightarrow>
      is8x8 (board gv) \<and>
      (\<forall>c \<in> set (validatorLosCalls (gv\<lparr>solution := rev (solution gv)\<rparr>)). losPre (fst c) (snd c))) \<and>
   (is8x8 b \<and> losPre from to \<longrightarrow>
      length (losInspected b from to 1) + 1 \<le> 7 \<and>
      (\<forall>c \<in> set (losInspected b from to 1). onBoard c) \<and>
      hasLineOfSight b from to =
        Inr (\<forall>c \<in> set (squaresBetween from to). boardGet b c = Cell None))"
proof (intro conjI impI)
  assume "searchStateAt rnd numPieces g0 k = Some g"
  then have "genInv g" by (rule searchStateAt_genInv)
  then show "is8x8 (board g)" by (simp add: genInv_def)
  then show "\<forall>c \<in> set (searchLosCalls rnd g). losPre (fst c) (snd c)"
    by (rule searchLosCalls_pre)
next
  assume "buildAttempt rnd numPieces (resetForAttempt g0) = (Inr u, gv)"
  from buildAttempt_facts [OF this] have inv: "genInv gv" by simp
  then show "is8x8 (board gv)" by (simp add: genInv_def)
  have "solutionOk (rev (solution gv))" using inv by (simp add: genInv_def solutionOk_def)
  from validateLosCalls_pre [OF this]
  show "\<forall>c \<in> set (validatorLosCalls (gv\<lparr>solution := rev (solution gv)\<rparr>)). losPre (fst c) (snd c)"
    by (simp add: validatorLosCalls_def)
next
  assume a: "is8x8 b \<and> losPre from to"
  note r = hasLineOfSight_run [of b "from" to]
  show "length (losInspected b from to 1) + 1 \<le> 7" using r(2) a by simp
  show "\<forall>c \<in> set (losInspected b from to 1). onBoard c" using r(3,4) a by blast
  show "hasLineOfSight b from to =
        Inr (\<forall>c \<in> set (squaresBetween from to). boardGet b c = Cell None)"
    using r(1) a by simp
qed

theorem hasLineOfSight_contract_witness:
  "searchStateAt (\<lambda>i. 1 / 2) 3 (constructor (\<lambda>i. 0) (Some Queen) 0) 0 \<noteq> None
   \<and> searchLosCalls (\<lambda>i. 1 / 2)
        (the (searchStateAt (\<lambda>i. 1 / 2) 3 (constructor (\<lambda>i. 0) (Some Queen) 0) 0)) \<noteq> []
   \<and> list_all (\<lambda>c. losPre (fst c) (snd c))
        (searchLosCalls (\<lambda>i. 1 / 2)
           (the (searchStateAt (\<lambda>i. 1 / 2) 3 (constructor (\<lambda>i. 0) (Some Queen) 0) 0)))
   \<and> fst (buildAttempt (\<lambda>i. 1 / 2) 3 (resetForAttempt (constructor (\<lambda>i. 0) (Some Queen) 0))) = Inr ()
   \<and> list_all (\<lambda>c. losPre (fst c) (snd c))
        (validateLosCalls
           (board (snd (buildAttempt (\<lambda>i. 1 / 2) 3 (resetForAttempt (constructor (\<lambda>i. 0) (Some Queen) 0)))))
           (board (snd (buildAttempt (\<lambda>i. 1 / 2) 3 (resetForAttempt (constructor (\<lambda>i. 0) (Some Queen) 0)))))
           Map.empty
           (rev (solution (snd (buildAttempt (\<lambda>i. 1 / 2) 3 (resetForAttempt (constructor (\<lambda>i. 0) (Some Queen) 0)))))))
   \<and> is8x8 sampleBoard \<and> losPre (7, 1) (1, 1)
   \<and> length (losInspected sampleBoard (7, 1) (1, 1) 1) + 1 \<le> 7
   \<and> list_all onBoard (losInspected sampleBoard (7, 1) (1, 1) 1)
   \<and> hasLineOfSight sampleBoard (7, 1) (1, 1) = Inr True"
proof -
  let ?R = "\<lambda>i::nat. 1 / 2 :: rat"
  let ?G = "constructor (\<lambda>i. 0) (Some Queen) 0"
  let ?s = "searchStateAt ?R 3 ?G 0"
  let ?ba = "buildAttempt ?R 3 (resetForAttempt ?G)"
  have s: "?s \<noteq> None" by code_simp
  then have s': "?s = Some (the ?s)" by simp
  have ne: "searchLosCalls ?R (the ?s) \<noteq> []" by code_simp
  have ba: "fst ?ba = Inr ()" by code_simp
  then have ba': "?ba = (Inr (), snd ?ba)" by (metis prod.collapse)
  have pre: "is8x8 sampleBoard \<and> losPre (7, 1) (1, 1)" by code_simp
  have free: "(\<forall>c \<in> set (squaresBetween (7, 1) (1, 1)). boardGet sampleBoard c = Cell None) = True"
    by code_simp
  from hasLineOfSight_contract [of ?R 3 ?G 0 "the ?s" "()" "snd ?ba" sampleBoard "(7, 1)" "(1, 1)"]
    s' ba' pre
  have "is8x8 (board (the ?s)) \<and> (\<forall>c \<in> set (searchLosCalls ?R (the ?s)). losPre (fst c) (snd c)) \<and>
      (\<forall>c \<in> set (validatorLosCalls ((snd ?ba)\<lparr>solution := rev (solution (snd ?ba))\<rparr>)). losPre (fst c) (snd c)) \<and>
      length (losInspected sampleBoard (7, 1) (1, 1) 1) + 1 \<le> 7 \<and>
      (\<forall>c \<in> set (losInspected sampleBoard (7, 1) (1, 1) 1). onBoard c) \<and>
      hasLineOfSight sampleBoard (7, 1) (1, 1) =
        Inr (\<forall>c \<in> set (squaresBetween (7, 1) (1, 1)). boardGet sampleBoard c = Cell None)"
    by blast
  then show ?thesis
    using s ne ba pre free by (simp add: list_all_iff validatorLosCalls_def)
qed

section \<open>State kept from one attempt to the next\<close>

text \<open>
  C2 (the code at the failing input). The reset at the start of an attempt empties the
  board, the solution, the piece count, the ledger and the identity counter, but leaves
  pieceLocations as it is. With the draws staleDraws and a Queen as final piece, the
  first attempt for three pieces fails and leaves the entries of pieces 1 and 3; the
  second attempt starts with them, spends its 100 rounds on the stale entry of piece 3
  and fails, while the same attempt started without them succeeds.
\<close>

theorem reset_keeps_pieceLocations:
  "board (resetForAttempt g) = emptyBoard
   \<and> solution (resetForAttempt g) = []
   \<and> pieceCount (resetForAttempt g) = 0
   \<and> moveCounts (resetForAttempt g) = Map.empty
   \<and> nextPieceId (resetForAttempt g) = 1
   \<and> pieceLocations (resetForAttempt g) = pieceLocations g
   \<and> fst (attempt staleDraws 3 (resetForAttempt (constructor staleDraws (Some Queen) 0)))
       = Inl InvalidPawnPlacement
   \<and> pieceLocations (resetForAttempt afterFirstAttempt) = [(1, (0, 0)), (3, (2, 1))]
   \<and> fst (attempt staleDraws 3 (resetForAttempt afterFirstAttempt)) = Inl GenerationAttemptFailed
   \<and> fst (attempt staleDraws 3 (resetForAttempt (afterFirstAttempt\<lparr>pieceLocations := []\<rparr>)))
       = Inr ()"
proof -
  have r: "board (resetForAttempt g) = emptyBoard" "solution (resetForAttempt g) = []"
    "pieceCount (resetForAttempt g) = 0" "moveCounts (resetForAttempt g) = Map.empty"
    "nextPieceId (resetForAttempt g) = 1" "pieceLocations (resetForAttempt g) = pieceLocations g"
    by (simp_all add: resetForAttempt_def)
  have a1: "fst (attempt staleDraws 3 (resetForAttempt (constructor staleDraws (Some Queen) 0)))
      = Inl InvalidPawnPlacement"
    by code_simp
  have a2: "pieceLocations (resetForAttempt afterFirstAttempt) = [(1, (0, 0)), (3, (2, 1))]"
    by code_simp
  have a3: "fst (attempt staleDraws 3 (resetForAttempt afterFirstAttempt)) = Inl GenerationAttemptFailed"
    by code_simp
  have a4: "fst (attempt staleDraws 3 (resetForAttempt (afterFirstAttempt\<lparr>pieceLocations := []\<rparr>)))
      = Inr ()"
    by code_simp
  from r a1 a2 a3 a4 show ?thesis by blast
qed

end
